theory Spec2Isabelle
  imports Main "HOL-Library.Word"
begin

section \<open>The synchronisation core of canal (canal/sync.go)\<close>

text \<open>
  A shallow embedding of \<^verbatim>\<open>canal/sync.go\<close>: the package-level regular expression
  \<^verbatim>\<open>expAlterTable\<close>, the global skip list, and the functions \<^verbatim>\<open>startSyncBinlog\<close>,
  \<^verbatim>\<open>isSkipedSchema\<close>, \<^verbatim>\<open>handleRowsEvent\<close> and \<^verbatim>\<open>WaitUntilPos\<close>.

  Byte slices and Go strings are \<open>string\<close> (lists of 8-bit characters). The collaborators
  that live outside the file (the syncer, the position tracker \<^verbatim>\<open>c.master\<close>, the table
  cache, the row handlers, the master-info handler) are not computed: every call to one
  of them is written to a list of effects, in program order, and its answer is read from
  a record of responses that is a parameter of the model.
\<close>

subsection \<open>Data\<close>

text \<open>\<^verbatim>\<open>time.Duration\<close> is an int64 count of nanoseconds; its arithmetic wraps.\<close>

type_synonym Duration = "64 word"

definition Second :: Duration where
  "Second = 1000000000"

definition Millisecond :: Duration where
  "Millisecond = 1000000"

text \<open>\<^verbatim>\<open>mysql.Position{Name string; Pos uint32}\<close>.\<close>

record Position =
  Name :: string
  Pos' :: "32 word"

text \<open>
  The event types of the replication package that \<^verbatim>\<open>handleRowsEvent\<close> names
  (\<^verbatim>\<open>type EventType byte\<close>), with the codes of the MySQL binary log format.
\<close>

type_synonym EventType = "8 word"

definition WRITE_ROWS_EVENTv0 :: EventType where "WRITE_ROWS_EVENTv0 = 20"
definition UPDATE_ROWS_EVENTv0 :: EventType where "UPDATE_ROWS_EVENTv0 = 21"
definition DELETE_ROWS_EVENTv0 :: EventType where "DELETE_ROWS_EVENTv0 = 22"
definition WRITE_ROWS_EVENTv1 :: EventType where "WRITE_ROWS_EVENTv1 = 23"
definition UPDATE_ROWS_EVENTv1 :: EventType where "UPDATE_ROWS_EVENTv1 = 24"
definition DELETE_ROWS_EVENTv1 :: EventType where "DELETE_ROWS_EVENTv1 = 25"
definition WRITE_ROWS_EVENTv2 :: EventType where "WRITE_ROWS_EVENTv2 = 30"
definition UPDATE_ROWS_EVENTv2 :: EventType where "UPDATE_ROWS_EVENTv2 = 31"
definition DELETE_ROWS_EVENTv2 :: EventType where "DELETE_ROWS_EVENTv2 = 32"

text \<open>A column value of a row (\<^verbatim>\<open>interface{}\<close>); the code never looks inside.\<close>

datatype val = Null | IntVal int | StrVal string

text \<open>
  The payload \<^verbatim>\<open>ev.Event\<close>, by the cases of the type switch of \<^verbatim>\<open>startSyncBinlog\<close>:
  \<^verbatim>\<open>RotateEvent{Position uint64; NextLogName []byte}\<close>, \<^verbatim>\<open>RowsEvent\<close> with the schema
  and table of its table map and its rows, \<^verbatim>\<open>XIDEvent\<close>, \<^verbatim>\<open>QueryEvent{Schema; Query}\<close>,
  and every other type (the \<^verbatim>\<open>default\<close> case).
\<close>

datatype Event =
    RotateEvent "64 word" string
  | RowsEvent string string "val list list"
  | XIDEvent
  | QueryEvent string string
  | OtherEvent

record EventHeader =
  EventType :: EventType
  LogPos :: "32 word"

record BinlogEvent =
  Header :: EventHeader
  Event :: Event

text \<open>
  The action of a row event. \<^verbatim>\<open>InsertAction\<close>, \<^verbatim>\<open>UpdateAction\<close> and \<^verbatim>\<open>DeleteAction\<close>
  are string constants declared elsewhere in the package; only their being three
  different actions is used here.
\<close>

datatype action = InsertAction | UpdateAction | DeleteAction

text \<open>The table metadata that \<^verbatim>\<open>c.GetTable\<close> returns; opaque to this file.\<close>

record Table =
  TableSchema :: string
  TableName :: string
  Columns :: "string list"

text \<open>What \<^verbatim>\<open>newRowsEvent(t, action, rows)\<close> packs for the row handlers.\<close>

record RowsEventRecord =
  RTable :: Table
  RAction :: action
  RRows :: "val list list"

definition newRowsEvent :: "Table \<Rightarrow> action \<Rightarrow> val list list \<Rightarrow> RowsEventRecord" where
  "newRowsEvent t a rows = \<lparr>RTable = t, RAction = a, RRows = rows\<rparr>"

text \<open>
  Errors as values. \<open>DeadlineExceeded\<close> is \<^verbatim>\<open>context.DeadlineExceeded\<close>; \<open>External\<close> is
  any error a collaborator returns; \<open>Trace\<close> is \<^verbatim>\<open>errors.Trace\<close>; the others are the
  three \<^verbatim>\<open>errors.Errorf\<close> of the file and the panic of a failed type assertion.
\<close>

datatype error =
    DeadlineExceeded
  | External string
  | Trace error
  | StartSyncError Position error
  | NotSupported EventType
  | WaitPositionError Position
  | TypeAssertionPanic

text \<open>The calls to collaborators and the log lines, as the code issues them.\<close>

datatype effect =
    LogStartSync Position
  | StartSync Position
  | GetEvent Duration
  | LogRotate Position
  | LogSkiped string string
  | GetTable string string
  | TravelRowsEventHandler RowsEventRecord
  | LogHandleRowsError error
  | ClearTableCache string string
  | LogClearTableCache string string
  | MasterUpdate string "32 word"
  | MasterSave bool
  | SavePos string "32 word"

text \<open>
  The answers of the collaborators during one iteration of the loop: \<^verbatim>\<open>s.GetEvent\<close>,
  \<^verbatim>\<open>c.GetTable\<close>, \<^verbatim>\<open>c.travelRowsEventHandler\<close>, \<^verbatim>\<open>c.master.Save\<close>, and
  \<^verbatim>\<open>c.getMasterInfoHandler\<close> (\<open>None\<close> is nil, \<open>Some h\<close> a handler whose \<^verbatim>\<open>SavePos\<close> is \<open>h\<close>).
\<close>

record responses =
  getEvent :: "error + BinlogEvent"
  getTable :: "string \<Rightarrow> string \<Rightarrow> error + Table"
  travelRowsEventHandler :: "RowsEventRecord \<Rightarrow> error option"
  masterSave :: "bool \<Rightarrow> bool \<times> error option"
  getMasterInfoHandler :: "(string \<Rightarrow> 32 word \<Rightarrow> error option) option"

text \<open>What the file reads of the receiver \<^verbatim>\<open>c\<close>: \<^verbatim>\<open>c.cfg.Dump.TableDB\<close> and \<^verbatim>\<open>c.master\<close>.\<close>

record Canal =
  TableDB :: string
  masterName :: string
  masterPosition :: "32 word"

text \<open>
  The variables of the loop of \<^verbatim>\<open>startSyncBinlog\<close>, and the package-level
  \<^verbatim>\<open>skipedSchemaList\<close>, which every call of \<^verbatim>\<open>isSkipedSchema\<close> reads and writes.
\<close>

record loop_state =
  pos :: Position
  timeout :: Duration
  forceSavePos :: bool
  posSaved :: bool
  skipedSchemaList :: "string list"

subsection \<open>The regular expression\<close>

text \<open>
  \<^verbatim>\<open>(?i)^ALTER\sTABLE\s.*?`{0,1}(.*?)`{0,1}\.{0,1}`{0,1}([^`\.]+?)`{0,1}\s.*\<close>

  Every repetition of the expression is over a single character class and its two groups
  are not nested, so the expression is a sequence of the items below. Go's \<^verbatim>\<open>regexp\<close>
  returns the match that a backtracking search finds first (leftmost-first): a greedy
  item tries to take a character before it tries to go on, a lazy item the other way
  round. \<open>run\<close> is that search. It works on bytes, which is what Go does on ASCII text.
\<close>

datatype rx =
    BeginText
  | One "char \<Rightarrow> bool"
  | Opt "char \<Rightarrow> bool"
  | StarLazy "char \<Rightarrow> bool"
  | PlusLazy "char \<Rightarrow> bool"
  | Star "char \<Rightarrow> bool"
  | GroupOpen
  | GroupClose

text \<open>
  The state of a match: the offset in the text, the text matched so far, the groups
  already closed, and the text of the group that is open.
\<close>

record mstate =
  offset :: nat
  whole :: string
  groups :: "string list"
  cur :: "string option"

definition consume :: "char \<Rightarrow> mstate \<Rightarrow> mstate" where
  "consume c st = st\<lparr>offset := Suc (offset st), whole := whole st @ [c],
                      cur := map_option (\<lambda>g. g @ [c]) (cur st)\<rparr>"

fun run :: "rx list \<Rightarrow> string \<Rightarrow> mstate \<Rightarrow> mstate option" where
  "run [] s st = Some st"
| "run (BeginText # r) s st = (if offset st = 0 then run r s st else None)"
| "run (One p # r) [] st = None"
| "run (One p # r) (c # s) st = (if p c then run r s (consume c st) else None)"
| "run (Opt p # r) [] st = run r [] st"
| "run (Opt p # r) (c # s) st =
     (if p c then (case run r s (consume c st) of
                     Some m \<Rightarrow> Some m
                   | None \<Rightarrow> run r (c # s) st)
      else run r (c # s) st)"
| "run (StarLazy p # r) [] st = run r [] st"
| "run (StarLazy p # r) (c # s) st =
     (case run r (c # s) st of
        Some m \<Rightarrow> Some m
      | None \<Rightarrow> if p c then run (StarLazy p # r) s (consume c st) else None)"
| "run (PlusLazy p # r) [] st = None"
| "run (PlusLazy p # r) (c # s) st =
     (if p c then run (StarLazy p # r) s (consume c st) else None)"
| "run (Star p # r) [] st = run r [] st"
| "run (Star p # r) (c # s) st =
     (if p c then (case run (Star p # r) s (consume c st) of
                     Some m \<Rightarrow> Some m
                   | None \<Rightarrow> run r (c # s) st)
      else run r (c # s) st)"
| "run (GroupOpen # r) s st = run r s (st\<lparr>cur := Some []\<rparr>)"
| "run (GroupClose # r) s st =
     run r s (st\<lparr>groups := groups st @ [case cur st of Some g \<Rightarrow> g | None \<Rightarrow> []],
                 cur := None\<rparr>)"

text \<open>The character classes of the expression: a letter under \<^verbatim>\<open>(?i)\<close>, \<^verbatim>\<open>\s\<close>, \<^verbatim>\<open>.\<close>,
  the backtick, \<^verbatim>\<open>\.\<close> and \<^verbatim>\<open>[^`\.]\<close>.\<close>

definition letter :: "char \<Rightarrow> char \<Rightarrow> char \<Rightarrow> bool" where
  "letter u l c = (c = u \<or> c = l)"

definition space_class :: "char \<Rightarrow> bool" where
  "space_class c =
     (c = CHR 0x09 \<or> c = CHR 0x0A \<or> c = CHR 0x0C \<or> c = CHR 0x0D \<or> c = CHR '' '')"

definition any_char :: "char \<Rightarrow> bool" where
  "any_char c = (c \<noteq> CHR 0x0A)"

definition backtick :: "char \<Rightarrow> bool" where
  "backtick c = (c = CHR 0x60)"

definition period :: "char \<Rightarrow> bool" where
  "period c = (c = CHR ''.'')"

definition not_backtick_period :: "char \<Rightarrow> bool" where
  "not_backtick_period c = (c \<noteq> CHR 0x60 \<and> c \<noteq> CHR ''.'')"

definition expAlterTable :: "rx list" where
  "expAlterTable =
     [BeginText,
      One (letter CHR ''A'' CHR ''a''), One (letter CHR ''L'' CHR ''l''),
      One (letter CHR ''T'' CHR ''t''), One (letter CHR ''E'' CHR ''e''),
      One (letter CHR ''R'' CHR ''r''),
      One space_class,
      One (letter CHR ''T'' CHR ''t''), One (letter CHR ''A'' CHR ''a''),
      One (letter CHR ''B'' CHR ''b''), One (letter CHR ''L'' CHR ''l''),
      One (letter CHR ''E'' CHR ''e''),
      One space_class,
      StarLazy any_char,
      Opt backtick,
      GroupOpen, StarLazy any_char, GroupClose,
      Opt backtick, Opt period, Opt backtick,
      GroupOpen, PlusLazy not_backtick_period, GroupClose,
      Opt backtick,
      One space_class,
      Star any_char]"

text \<open>
  \<^verbatim>\<open>FindSubmatch\<close>: the leftmost match. The result holds the whole match and then the
  groups (\<^verbatim>\<open>mb[0]\<close>, \<^verbatim>\<open>mb[1]\<close>, \<^verbatim>\<open>mb[2]\<close>); \<open>None\<close> is the nil of no match.
\<close>

fun search :: "rx list \<Rightarrow> string \<Rightarrow> nat \<Rightarrow> string list option" where
  "search re [] off =
     (case run re [] \<lparr>offset = off, whole = [], groups = [], cur = None\<rparr> of
        Some st \<Rightarrow> Some (whole st # groups st)
      | None \<Rightarrow> None)"
| "search re (c # s) off =
     (case run re (c # s) \<lparr>offset = off, whole = [], groups = [], cur = None\<rparr> of
        Some st \<Rightarrow> Some (whole st # groups st)
      | None \<Rightarrow> search re s (Suc off))"

definition FindSubmatch :: "rx list \<Rightarrow> string \<Rightarrow> string list option" where
  "FindSubmatch re b = search re b 0"

text \<open>
  For the statements of the properties: a keyword written in any mix of upper and lower
  case, and the characters of a schema or table name (no backtick, no period, no white
  space).
\<close>

definition keyword :: "string \<Rightarrow> string \<Rightarrow> string \<Rightarrow> bool" where
  "keyword upper lower w = list_all2 (\<lambda>c (u, l). c = u \<or> c = l) w (zip upper lower)"

definition name_char :: "char \<Rightarrow> bool" where
  "name_char c = (c \<noteq> CHR 0x60 \<and> c \<noteq> CHR ''.'' \<and> \<not> space_class c)"

subsection \<open>isSkipedSchema\<close>

text \<open>The search of the list, with its \<^verbatim>\<open>break\<close>.\<close>

fun found_in :: "string \<Rightarrow> string list \<Rightarrow> bool" where
  "found_in schema [] = False"
| "found_in schema (v # vs) = (if v = schema then True else found_in schema vs)"

text \<open>
  The result, the new value of the global list, and the log line if there is one. The
  lock makes the search and the append one step.
\<close>

definition isSkipedSchema ::
  "Canal \<Rightarrow> string \<Rightarrow> string list \<Rightarrow> bool \<times> string list \<times> effect list" where
  "isSkipedSchema c schema l =
     (if TableDB c \<noteq> [] \<and> TableDB c \<noteq> schema then
        (let found = found_in schema l;
             l' = (if \<not> found then l @ [schema] else l)
         in (True, l', if \<not> found then [LogSkiped schema (TableDB c)] else []))
      else (False, l, []))"

text \<open>
  A sequence of calls, each by some instance \<open>c\<close> of \<^verbatim>\<open>Canal\<close> on some schema: all of
  them work on the one global list. The result is the list after the last call, and the
  result and log lines of each call.
\<close>

fun calls ::
  "(Canal \<times> string) list \<Rightarrow> string list \<Rightarrow> string list \<times> (bool \<times> effect list) list" where
  "calls [] l = (l, [])"
| "calls ((c, schema) # cs) l =
     (case isSkipedSchema c schema l of
        (b, l', logs) \<Rightarrow> (case calls cs l' of (l'', rs) \<Rightarrow> (l'', (b, logs) # rs)))"

subsection \<open>handleRowsEvent\<close>

text \<open>The switch on \<^verbatim>\<open>e.Header.EventType\<close>.\<close>

definition action_of :: "EventType \<Rightarrow> error + action" where
  "action_of t =
     (if t = WRITE_ROWS_EVENTv1 \<or> t = WRITE_ROWS_EVENTv2 then Inr InsertAction
      else if t = DELETE_ROWS_EVENTv1 \<or> t = DELETE_ROWS_EVENTv2 then Inr DeleteAction
      else if t = UPDATE_ROWS_EVENTv1 \<or> t = UPDATE_ROWS_EVENTv2 then Inr UpdateAction
      else Inl (NotSupported t))"

text \<open>The returned error (\<open>None\<close> is nil), the global list, and the effects.\<close>

definition handleRowsEvent ::
  "Canal \<Rightarrow> responses \<Rightarrow> BinlogEvent \<Rightarrow> string list \<Rightarrow>
   error option \<times> string list \<times> effect list" where
  "handleRowsEvent c env e l =
     (case Event e of
        RowsEvent schema table rows \<Rightarrow>
          (case isSkipedSchema c schema l of
             (True, l', logs) \<Rightarrow> (None, l', logs)
           | (False, l', logs) \<Rightarrow>
               (case getTable env schema table of
                  Inl err \<Rightarrow> (Some (Trace err), l', logs @ [GetTable schema table])
                | Inr t \<Rightarrow>
                    (case action_of (EventType (Header e)) of
                       Inl err \<Rightarrow> (Some err, l', logs @ [GetTable schema table])
                     | Inr a \<Rightarrow>
                         (travelRowsEventHandler env (newRowsEvent t a rows), l',
                          logs @ [GetTable schema table,
                                  TravelRowsEventHandler (newRowsEvent t a rows)]))))
      | _ \<Rightarrow> (Some TypeAssertionPanic, l, []))"

subsection \<open>startSyncBinlog\<close>

text \<open>
  The end of the loop body (lines 94 to 105): \<^verbatim>\<open>c.master.Update\<close>, \<^verbatim>\<open>c.master.Save\<close>,
  and \<^verbatim>\<open>SavePos\<close> of the master-info handler. \<open>Inl\<close> is a return of the function with
  that error, \<open>Inr\<close> the state at the start of the next iteration.
\<close>

definition save_step ::
  "responses \<Rightarrow> loop_state \<Rightarrow> effect list \<Rightarrow> (error + loop_state) \<times> effect list" where
  "save_step env s effs =
     (let name = Name (pos s); p = Pos' (pos s);
          effs1 = effs @ [MasterUpdate name p, MasterSave (forceSavePos s)]
      in case masterSave env (forceSavePos s) of
           (saved, Some err) \<Rightarrow> (Inl (Trace err), effs1)
         | (saved, None) \<Rightarrow>
             (if saved then
                (case getMasterInfoHandler env of
                   Some h \<Rightarrow>
                     (case h name p of
                        Some err \<Rightarrow> (Inl err, effs1 @ [SavePos name p])
                      | None \<Rightarrow> (Inr (s\<lparr>posSaved := saved\<rparr>), effs1 @ [SavePos name p]))
                 | None \<Rightarrow> (Inr (s\<lparr>posSaved := saved\<rparr>), effs1))
              else (Inr (s\<lparr>posSaved := saved\<rparr>), effs1)))"

text \<open>One iteration of the \<^verbatim>\<open>for\<close> loop (lines 37 to 105).\<close>

definition step ::
  "Canal \<Rightarrow> responses \<Rightarrow> loop_state \<Rightarrow> (error + loop_state) \<times> effect list" where
  "step c env s =
     (case getEvent env of
        Inl err \<Rightarrow>
          (if err = DeadlineExceeded
           then (Inr (s\<lparr>timeout := 2 * timeout s\<rparr>), [GetEvent (2 * Second)])
           else (Inl (Trace err), [GetEvent (2 * Second)]))
      | Inr ev \<Rightarrow>
          (let s1 = s\<lparr>timeout := Second,
                      pos := (pos s)\<lparr>Pos' := LogPos (Header ev)\<rparr>,
                      forceSavePos := False\<rparr>
           in case Event ev of
                RotateEvent position nextLogName \<Rightarrow>
                  (let p = \<lparr>Name = nextLogName, Pos' = ucast position\<rparr>
                   in save_step env (s1\<lparr>pos := p, forceSavePos := True\<rparr>)
                        [GetEvent (2 * Second), LogRotate p])
              | RowsEvent schema table rows \<Rightarrow>
                  (case handleRowsEvent c env ev (skipedSchemaList s1) of
                     (Some err, l, effs) \<Rightarrow>
                       (Inl (Trace err),
                        GetEvent (2 * Second) # effs @ [LogHandleRowsError err])
                   | (None, l, effs) \<Rightarrow>
                       (Inr (s1\<lparr>skipedSchemaList := l\<rparr>), GetEvent (2 * Second) # effs))
              | XIDEvent \<Rightarrow> save_step env s1 [GetEvent (2 * Second)]
              | QueryEvent schema query \<Rightarrow>
                  (case FindSubmatch expAlterTable query of
                     Some mb \<Rightarrow>
                       (let mb1 = (if length (mb ! 1) = 0 then schema else mb ! 1)
                        in save_step env (s1\<lparr>forceSavePos := True\<rparr>)
                             [GetEvent (2 * Second), ClearTableCache mb1 (mb ! 2),
                              LogClearTableCache mb1 (mb ! 2)])
                   | None \<Rightarrow> (Inr s1, [GetEvent (2 * Second)]))
              | OtherEvent \<Rightarrow> (Inr s1, [GetEvent (2 * Second)])))"

text \<open>
  The loop has no exit but the returns with an error. It is run on the answers of the
  collaborators for its first iterations, one record for each: the result is the error
  returned, or the state reached when the answers are used up.
\<close>

datatype run_result = Returned error | Running loop_state

fun iterate ::
  "Canal \<Rightarrow> responses list \<Rightarrow> loop_state \<Rightarrow> run_result \<times> effect list" where
  "iterate c [] s = (Running s, [])"
| "iterate c (env # envs) s =
     (case step c env s of
        (Inl err, effs) \<Rightarrow> (Returned err, effs)
      | (Inr s', effs) \<Rightarrow>
          (case iterate c envs s' of (r, effs') \<Rightarrow> (r, effs @ effs')))"

text \<open>
  The function from its first line: \<open>startSync\<close> is the error of \<^verbatim>\<open>c.syncer.StartSync\<close>
  (\<open>None\<close> is nil) and \<open>l\<close> the global list when the function is called.
\<close>

definition startSyncBinlog ::
  "Canal \<Rightarrow> error option \<Rightarrow> responses list \<Rightarrow> string list \<Rightarrow> run_result \<times> effect list" where
  "startSyncBinlog c startSync envs l =
     (let p = \<lparr>Name = masterName c, Pos' = masterPosition c\<rparr>
      in case startSync of
           Some err \<Rightarrow> (Returned (StartSyncError p err), [LogStartSync p, StartSync p])
         | None \<Rightarrow>
             (case iterate c envs
                     \<lparr>pos = p, timeout = Second, forceSavePos = False, posSaved = False,
                      skipedSchemaList = l\<rparr> of
                (r, effs) \<Rightarrow> (r, [LogStartSync p, StartSync p] @ effs)))"

text \<open>The calls that touch the position tracker or the master-info handler.\<close>

fun position_call :: "effect \<Rightarrow> bool" where
  "position_call (MasterUpdate n p) = True"
| "position_call (MasterSave f) = True"
| "position_call (SavePos n p) = True"
| "position_call e = False"

subsection \<open>WaitUntilPos\<close>

text \<open>
  Time is a clock of nanoseconds that starts at the call and that only \<^verbatim>\<open>time.Sleep\<close>
  moves. The timer of duration \<open>d\<close> has fired at clock \<open>now\<close> when \<open>d \<le> now\<close>; a timer of
  a negative duration has fired from the start. \<open>cmp\<close> is \<^verbatim>\<open>Position.Compare\<close> of the
  mysql package and \<open>masterPos\<close> what \<^verbatim>\<open>c.master.Pos()\<close> answers at each time. The result
  is the error returned (\<open>None\<close> is nil) and the time of the return.
\<close>

function wait_loop ::
  "(Position \<Rightarrow> Position \<Rightarrow> int) \<Rightarrow> (nat \<Rightarrow> Position) \<Rightarrow> Position \<Rightarrow> int \<Rightarrow> nat \<Rightarrow>
   error option \<times> nat" where
  "wait_loop cmp masterPos p d now =
     (if d \<le> int now then (Some (WaitPositionError p), now)
      else if cmp (masterPos now) p \<ge> 0 then (None, now)
      else wait_loop cmp masterPos p d (now + unat (100 * Millisecond)))"
  by pat_completeness auto
termination
  by (relation "measure (\<lambda>(cmp, masterPos, p, d, now). nat (d - int now))")
     (auto simp: Millisecond_def)

definition WaitUntilPos ::
  "(Position \<Rightarrow> Position \<Rightarrow> int) \<Rightarrow> (nat \<Rightarrow> Position) \<Rightarrow> Position \<Rightarrow> 64 word \<Rightarrow>
   error option \<times> nat" where
  "WaitUntilPos cmp masterPos p t =
     (let t' = (if sint t \<le> 0 then 60 else t)
      in wait_loop cmp masterPos p (sint (t' * Second)) 0)"

subsection \<open>Inputs for the examples\<close>

text \<open>
  A canal restricted to the schema \<open>app\<close>, the state of the loop at its first iteration,
  and the answers of collaborators that never fail: \<^verbatim>\<open>GetTable\<close> finds the table, the
  row handlers accept, \<^verbatim>\<open>Save\<close> persists when forced, no master-info handler is set.
\<close>

abbreviation app_canal :: Canal where
  "app_canal \<equiv> \<lparr>TableDB = ''app'', masterName = ''bin.000001'', masterPosition = 4\<rparr>"

abbreviation start_state :: loop_state where
  "start_state \<equiv>
     \<lparr>pos = \<lparr>Name = ''bin.000001'', Pos' = 4\<rparr>, timeout = Second, forceSavePos = False,
      posSaved = False, skipedSchemaList = []\<rparr>"

abbreviation users_table :: "string \<Rightarrow> Table" where
  "users_table schema \<equiv> \<lparr>TableSchema = schema, TableName = ''users'', Columns = [''id'']\<rparr>"

abbreviation quiet_env :: "error + BinlogEvent \<Rightarrow> responses" where
  "quiet_env r \<equiv>
     \<lparr>getEvent = r,
      getTable = (\<lambda>schema table. Inr (users_table schema)),
      travelRowsEventHandler = (\<lambda>e. None),
      masterSave = (\<lambda>force. (force, None)),
      getMasterInfoHandler = None\<rparr>"

abbreviation rows_event :: "EventType \<Rightarrow> BinlogEvent" where
  "rows_event t \<equiv>
     \<lparr>Header = \<lparr>EventType = t, LogPos = 120\<rparr>, Event = RowsEvent ''app'' ''users'' [[IntVal 1]]\<rparr>"

abbreviation rows_env :: "EventType \<Rightarrow> responses" where
  "rows_env t \<equiv> quiet_env (Inr (rows_event t))"

text \<open>
  The same answers with a master-info handler that accepts, and the events of the
  examples: a rotation, a transaction end, two statements, an event of another type and
  a row event of a schema outside \<open>app\<close>.
\<close>

abbreviation sink_env :: "error + BinlogEvent \<Rightarrow> responses" where
  "sink_env r \<equiv> (quiet_env r)\<lparr>getMasterInfoHandler := Some (\<lambda>name p. None)\<rparr>"

abbreviation rotate_event :: BinlogEvent where
  "rotate_event \<equiv>
     \<lparr>Header = \<lparr>EventType = 4, LogPos = 0\<rparr>, Event = RotateEvent 4 ''bin.000002''\<rparr>"

abbreviation xid_event :: BinlogEvent where
  "xid_event \<equiv> \<lparr>Header = \<lparr>EventType = 16, LogPos = 250\<rparr>, Event = XIDEvent\<rparr>"

abbreviation query_event :: "string \<Rightarrow> BinlogEvent" where
  "query_event q \<equiv> \<lparr>Header = \<lparr>EventType = 2, LogPos = 400\<rparr>, Event = QueryEvent ''shop'' q\<rparr>"

abbreviation other_event :: BinlogEvent where
  "other_event \<equiv> \<lparr>Header = \<lparr>EventType = 19, LogPos = 90\<rparr>, Event = OtherEvent\<rparr>"

abbreviation skiped_rows_event :: BinlogEvent where
  "skiped_rows_event \<equiv>
     \<lparr>Header = \<lparr>EventType = WRITE_ROWS_EVENTv2, LogPos = 120\<rparr>,
      Event = RowsEvent ''other'' ''users'' [[IntVal 1]]\<rparr>"

text \<open>
  Modelled from the spec: \<^verbatim>\<open>Position.Compare\<close> of the mysql package, which is not part of
  this file, as the order of positions that the specification describes (by file name,
  then by offset). Only the examples use it: the properties of \<^verbatim>\<open>WaitUntilPos\<close> take
  the comparison as a parameter.
\<close>

fun less_string :: "string \<Rightarrow> string \<Rightarrow> bool" where
  "less_string [] [] = False"
| "less_string [] (y # ys) = True"
| "less_string (x # xs) [] = False"
| "less_string (x # xs) (y # ys) =
     ((of_char x :: nat) < of_char y \<or> (x = y \<and> less_string xs ys))"

definition Compare :: "Position \<Rightarrow> Position \<Rightarrow> int" where
  "Compare p q =
     (if less_string (Name q) (Name p) then 1
      else if less_string (Name p) (Name q) then - 1
      else if Pos' q < Pos' p then 1
      else if Pos' p < Pos' q then - 1
      else 0)"

text \<open>
  A tracker that never moves from \<open>(fileA, 100)\<close>, one that reaches \<open>(fileB, 500)\<close> one
  second after the call, and the target \<open>(fileB, 500)\<close>.
\<close>

abbreviation stuck_tracker :: "nat \<Rightarrow> Position" where
  "stuck_tracker \<equiv> (\<lambda>now. \<lparr>Name = ''fileA'', Pos' = 100\<rparr>)"

abbreviation late_tracker :: "nat \<Rightarrow> Position" where
  "late_tracker \<equiv>
     (\<lambda>now. if now < 1000000000 then \<lparr>Name = ''fileA'', Pos' = 100\<rparr>
            else \<lparr>Name = ''fileB'', Pos' = 500\<rparr>)"

abbreviation target :: Position where
  "target \<equiv> \<lparr>Name = ''fileB'', Pos' = 500\<rparr>"

section \<open>Properties\<close>

subsection \<open>The skip list\<close>

lemma found_in_set: "found_in schema l = (schema \<in> set l)"
  by (induction l) auto

lemma isSkipedSchema_result:
  "isSkipedSchema c schema l =
     (if TableDB c \<noteq> [] \<and> TableDB c \<noteq> schema
      then (True, if schema \<in> set l then l else l @ [schema],
            if schema \<in> set l then [] else [LogSkiped schema (TableDB c)])
      else (False, l, []))"
  by (simp add: isSkipedSchema_def found_in_set Let_def)

lemma isSkipedSchema_distinct:
  "distinct l \<Longrightarrow> distinct (fst (snd (isSkipedSchema c schema l)))"
  by (simp add: isSkipedSchema_result)

lemma isSkipedSchema_grows:
  "\<exists>ys. fst (snd (isSkipedSchema c schema l)) = l @ ys"
  by (simp add: isSkipedSchema_result)

lemma calls_Cons_fst:
  "fst (calls ((c, schema) # cs) l) = fst (calls cs (fst (snd (isSkipedSchema c schema l))))"
  by (simp split: prod.splits)

lemma calls_distinct: "distinct l \<Longrightarrow> distinct (fst (calls cs l))"
proof (induction cs arbitrary: l)
  case Nil
  then show ?case by simp
next
  case (Cons a cs)
  obtain c schema where a: "a = (c, schema)" by (cases a)
  have "distinct (fst (snd (isSkipedSchema c schema l)))"
    using Cons.prems by (rule isSkipedSchema_distinct)
  then have "distinct (fst (calls cs (fst (snd (isSkipedSchema c schema l)))))"
    by (rule Cons.IH)
  then show ?case unfolding a calls_Cons_fst .
qed

lemma calls_grows: "\<exists>ys. fst (calls cs l) = l @ ys"
proof (induction cs arbitrary: l)
  case Nil
  then show ?case by simp
next
  case (Cons a cs)
  obtain c schema where a: "a = (c, schema)" by (cases a)
  obtain ys where ys: "fst (snd (isSkipedSchema c schema l)) = l @ ys"
    using isSkipedSchema_grows by blast
  obtain zs where zs: "fst (calls cs (l @ ys)) = (l @ ys) @ zs"
    using Cons.IH by blast
  show ?case unfolding a calls_Cons_fst ys zs by simp
qed

lemma calls_append_fst:
  "fst (calls (cs @ ds) l) = fst (calls ds (fst (calls cs l)))"
proof (induction cs arbitrary: l)
  case Nil
  then show ?case by simp
next
  case (Cons a cs)
  obtain c schema where a: "a = (c, schema)" by (cases a)
  show ?case unfolding a append_Cons calls_Cons_fst by (rule Cons.IH)
qed

text \<open>
  C10. \<^verbatim>\<open>skipedSchemaList\<close> is one list for the whole package: the calls of every
  instance of \<^verbatim>\<open>Canal\<close> read and write the same list. \<^verbatim>\<open>isSkipedSchema\<close> appends a
  schema only when the list does not hold it: after any sequence of calls that starts
  from the empty list (or from a list without duplicates) the list has no duplicates.
  An entry is never removed: the list after more calls is the list before with entries
  appended. The calls are taken one after the other, as the lock orders them.
\<close>

theorem skip_list_no_duplicates:
  "distinct (fst (calls cs [])) \<and>
   (distinct l \<longrightarrow> distinct (fst (calls cs l))) \<and>
   (\<exists>ys. fst (calls cs l) = l @ ys) \<and>
   (\<exists>ys. fst (calls (cs @ ds) l) = fst (calls cs l) @ ys)"
proof -
  have "\<exists>ys. fst (calls (cs @ ds) l) = fst (calls cs l) @ ys"
    unfolding calls_append_fst by (rule calls_grows)
  then show ?thesis
    using calls_distinct [of "[]" cs] calls_distinct [of l cs] calls_grows [of cs l]
    by simp
qed

theorem skip_list_no_duplicates_witness:
  "distinct [''logs''] \<and>
   fst (calls [(\<lparr>TableDB = ''app'', masterName = ''bin.000001'', masterPosition = 4\<rparr>, ''other''),
               (\<lparr>TableDB = ''shop'', masterName = ''bin.000007'', masterPosition = 4\<rparr>, ''other''),
               (\<lparr>TableDB = ''shop'', masterName = ''bin.000007'', masterPosition = 4\<rparr>, ''app''),
               (\<lparr>TableDB = ''app'', masterName = ''bin.000001'', masterPosition = 4\<rparr>, ''logs'')]
          [''logs''])
     = [''logs'', ''other'', ''app''] \<and>
   distinct (fst (calls
              [(\<lparr>TableDB = ''app'', masterName = ''bin.000001'', masterPosition = 4\<rparr>, ''other''),
               (\<lparr>TableDB = ''shop'', masterName = ''bin.000007'', masterPosition = 4\<rparr>, ''other''),
               (\<lparr>TableDB = ''shop'', masterName = ''bin.000007'', masterPosition = 4\<rparr>, ''app''),
               (\<lparr>TableDB = ''app'', masterName = ''bin.000001'', masterPosition = 4\<rparr>, ''logs'')]
              [''logs'']))"
  using skip_list_no_duplicates
    [of "[(\<lparr>TableDB = ''app'', masterName = ''bin.000001'', masterPosition = 4\<rparr>, ''other''),
          (\<lparr>TableDB = ''shop'', masterName = ''bin.000007'', masterPosition = 4\<rparr>, ''other''),
          (\<lparr>TableDB = ''shop'', masterName = ''bin.000007'', masterPosition = 4\<rparr>, ''app''),
          (\<lparr>TableDB = ''app'', masterName = ''bin.000001'', masterPosition = 4\<rparr>, ''logs'')]"
        "[''logs'']" "[]"]
  by (simp add: isSkipedSchema_def)

lemma calls_keeps:
  "x \<in> set l \<Longrightarrow> x \<in> set (fst (calls cs l))"
  using calls_grows [of cs l] by auto

lemma isSkipedSchema_remembers:
  "TableDB c \<noteq> [] \<Longrightarrow> TableDB c \<noteq> schema \<Longrightarrow>
   schema \<in> set (fst (snd (isSkipedSchema c schema l)))"
  by (simp add: isSkipedSchema_result)

text \<open>
  C5. \<^verbatim>\<open>isSkipedSchema\<close> returns false for every schema when \<^verbatim>\<open>TableDB\<close> is empty and
  false for the schema that equals \<^verbatim>\<open>TableDB\<close>; for any other schema it returns true. The
  log line is written exactly when the schema is skipped and the global list does not
  hold it yet, and the call leaves the schema in the list: a later call with the same
  schema (after any calls in between) returns true again, writes no log line and leaves
  the list as it is.
\<close>

theorem schema_filter:
  "fst (isSkipedSchema c schema l) = (TableDB c \<noteq> [] \<and> TableDB c \<noteq> schema) \<and>
   snd (snd (isSkipedSchema c schema l)) =
     (if TableDB c \<noteq> [] \<and> TableDB c \<noteq> schema \<and> schema \<notin> set l
      then [LogSkiped schema (TableDB c)] else []) \<and>
   (TableDB c \<noteq> [] \<and> TableDB c \<noteq> schema \<longrightarrow>
      isSkipedSchema c schema (fst (calls cs (fst (snd (isSkipedSchema c schema l))))) =
        (True, fst (calls cs (fst (snd (isSkipedSchema c schema l)))), []))"
proof -
  have "isSkipedSchema c schema (fst (calls cs (fst (snd (isSkipedSchema c schema l))))) =
        (True, fst (calls cs (fst (snd (isSkipedSchema c schema l)))), [])"
    if a: "TableDB c \<noteq> []" and b: "TableDB c \<noteq> schema"
  proof -
    have "schema \<in> set (fst (calls cs (fst (snd (isSkipedSchema c schema l)))))"
      using isSkipedSchema_remembers [OF a b] by (rule calls_keeps)
    then show ?thesis using a b by (simp add: isSkipedSchema_result)
  qed
  then show ?thesis by (simp add: isSkipedSchema_result)
qed

theorem schema_filter_witness:
  "calls [(\<lparr>TableDB = ''app'', masterName = ''bin.000001'', masterPosition = 4\<rparr>, ''other''),
          (\<lparr>TableDB = ''app'', masterName = ''bin.000001'', masterPosition = 4\<rparr>, ''app''),
          (\<lparr>TableDB = ''app'', masterName = ''bin.000001'', masterPosition = 4\<rparr>, ''other'')] []
     = ([''other''], [(True, [LogSkiped ''other'' ''app'']), (False, []), (True, [])]) \<and>
   isSkipedSchema \<lparr>TableDB = [], masterName = ''bin.000001'', masterPosition = 4\<rparr> ''other'' []
     = (False, [], []) \<and>
   isSkipedSchema \<lparr>TableDB = ''app'', masterName = ''bin.000001'', masterPosition = 4\<rparr> ''other''
      (fst (calls [(\<lparr>TableDB = ''app'', masterName = ''bin.000001'', masterPosition = 4\<rparr>, ''app'')]
         (fst (snd (isSkipedSchema
            \<lparr>TableDB = ''app'', masterName = ''bin.000001'', masterPosition = 4\<rparr> ''other'' []))))) =
     (True, [''other''], [])"
  using schema_filter
    [of "\<lparr>TableDB = ''app'', masterName = ''bin.000001'', masterPosition = 4\<rparr>" "''other''" "[]"
        "[(\<lparr>TableDB = ''app'', masterName = ''bin.000001'', masterPosition = 4\<rparr>, ''app'')]"]
  by (simp add: isSkipedSchema_def)

subsection \<open>The action of a row event\<close>

lemma action_of_cases:
  "action_of WRITE_ROWS_EVENTv1 = Inr InsertAction"
  "action_of WRITE_ROWS_EVENTv2 = Inr InsertAction"
  "action_of DELETE_ROWS_EVENTv1 = Inr DeleteAction"
  "action_of DELETE_ROWS_EVENTv2 = Inr DeleteAction"
  "action_of UPDATE_ROWS_EVENTv1 = Inr UpdateAction"
  "action_of UPDATE_ROWS_EVENTv2 = Inr UpdateAction"
  by (simp_all add: action_of_def WRITE_ROWS_EVENTv1_def WRITE_ROWS_EVENTv2_def
      DELETE_ROWS_EVENTv1_def DELETE_ROWS_EVENTv2_def UPDATE_ROWS_EVENTv1_def
      UPDATE_ROWS_EVENTv2_def)

lemma action_of_other:
  "t \<notin> {WRITE_ROWS_EVENTv1, WRITE_ROWS_EVENTv2, DELETE_ROWS_EVENTv1, DELETE_ROWS_EVENTv2,
          UPDATE_ROWS_EVENTv1, UPDATE_ROWS_EVENTv2} \<Longrightarrow>
   action_of t = Inl (NotSupported t)"
  by (simp add: action_of_def)

lemma step_rows_not_skiped:
  assumes "getEvent env = Inr ev" and "Event ev = RowsEvent schema table rows"
    and "\<not> fst (isSkipedSchema c schema (skipedSchemaList s))"
    and "getTable env schema table = Inr tb"
  shows "step c env s =
     (case action_of (EventType (Header ev)) of
        Inl err \<Rightarrow> (Inl (Trace err),
                    [GetEvent (2 * Second), GetTable schema table, LogHandleRowsError err])
      | Inr a \<Rightarrow>
          (case travelRowsEventHandler env (newRowsEvent tb a rows) of
             Some err \<Rightarrow>
               (Inl (Trace err),
                [GetEvent (2 * Second), GetTable schema table,
                 TravelRowsEventHandler (newRowsEvent tb a rows), LogHandleRowsError err])
           | None \<Rightarrow>
               (Inr (s\<lparr>timeout := Second, pos := (pos s)\<lparr>Pos' := LogPos (Header ev)\<rparr>,
                       forceSavePos := False\<rparr>),
                [GetEvent (2 * Second), GetTable schema table,
                 TravelRowsEventHandler (newRowsEvent tb a rows)])))"
  using assms
  by (simp add: step_def handleRowsEvent_def isSkipedSchema_result Let_def
      split: sum.splits option.splits if_splits)

text \<open>
  C4. The switch of \<^verbatim>\<open>handleRowsEvent\<close> maps both write-rows types (v1, v2) to the insert
  action, both delete-rows types to the delete action and both update-rows types to the
  update action; any other type gives the "not supported" error. For a row event that
  reaches the switch (its schema is not skipped and its table is found), the action is
  the one handed to the row handlers, and the error makes the loop return at once.
\<close>

theorem row_action_mapping:
  "action_of WRITE_ROWS_EVENTv1 = Inr InsertAction \<and>
   action_of WRITE_ROWS_EVENTv2 = Inr InsertAction \<and>
   action_of DELETE_ROWS_EVENTv1 = Inr DeleteAction \<and>
   action_of DELETE_ROWS_EVENTv2 = Inr DeleteAction \<and>
   action_of UPDATE_ROWS_EVENTv1 = Inr UpdateAction \<and>
   action_of UPDATE_ROWS_EVENTv2 = Inr UpdateAction \<and>
   (t \<notin> {WRITE_ROWS_EVENTv1, WRITE_ROWS_EVENTv2, DELETE_ROWS_EVENTv1, DELETE_ROWS_EVENTv2,
           UPDATE_ROWS_EVENTv1, UPDATE_ROWS_EVENTv2} \<longrightarrow>
      action_of t = Inl (NotSupported t)) \<and>
   (getEvent env = Inr ev \<and> Event ev = RowsEvent schema table rows \<and>
    \<not> fst (isSkipedSchema c schema (skipedSchemaList s)) \<and>
    getTable env schema table = Inr tb \<longrightarrow>
      (\<forall>a. action_of (EventType (Header ev)) = Inr a \<longrightarrow>
         TravelRowsEventHandler (newRowsEvent tb a rows) \<in> set (snd (step c env s))) \<and>
      (\<forall>err. action_of (EventType (Header ev)) = Inl err \<longrightarrow>
         iterate c (env # envs) s =
           (Returned (Trace err),
            [GetEvent (2 * Second), GetTable schema table, LogHandleRowsError err])))"
proof -
  have "(\<forall>a. action_of (EventType (Header ev)) = Inr a \<longrightarrow>
           TravelRowsEventHandler (newRowsEvent tb a rows) \<in> set (snd (step c env s))) \<and>
        (\<forall>err. action_of (EventType (Header ev)) = Inl err \<longrightarrow>
           iterate c (env # envs) s =
             (Returned (Trace err),
              [GetEvent (2 * Second), GetTable schema table, LogHandleRowsError err]))"
    if "getEvent env = Inr ev" and "Event ev = RowsEvent schema table rows"
      and "\<not> fst (isSkipedSchema c schema (skipedSchemaList s))"
      and "getTable env schema table = Inr tb"
    using step_rows_not_skiped [OF that] by (auto split: option.splits)
  then show ?thesis
    using action_of_other [of t] by (simp add: action_of_cases)
qed

theorem row_action_mapping_witness:
  "WRITE_ROWS_EVENTv0 \<notin> {WRITE_ROWS_EVENTv1, WRITE_ROWS_EVENTv2, DELETE_ROWS_EVENTv1,
      DELETE_ROWS_EVENTv2, UPDATE_ROWS_EVENTv1, UPDATE_ROWS_EVENTv2} \<and>
   action_of WRITE_ROWS_EVENTv0 = Inl (NotSupported 20) \<and>
   getEvent (rows_env WRITE_ROWS_EVENTv0) = Inr (rows_event WRITE_ROWS_EVENTv0) \<and>
   \<not> fst (isSkipedSchema app_canal ''app'' (skipedSchemaList start_state)) \<and>
   iterate app_canal [rows_env WRITE_ROWS_EVENTv0, rows_env WRITE_ROWS_EVENTv2] start_state =
     (Returned (Trace (NotSupported 20)),
      [GetEvent (2 * Second), GetTable ''app'' ''users'',
       LogHandleRowsError (NotSupported 20)]) \<and>
   action_of (EventType (Header (rows_event WRITE_ROWS_EVENTv2))) = Inr InsertAction \<and>
   TravelRowsEventHandler (newRowsEvent (users_table ''app'') InsertAction [[IntVal 1]])
     \<in> set (snd (step app_canal (rows_env WRITE_ROWS_EVENTv2) start_state))"
  using row_action_mapping
    [of WRITE_ROWS_EVENTv0 "rows_env WRITE_ROWS_EVENTv0" "rows_event WRITE_ROWS_EVENTv0"
        "''app''" "''users''" "[[IntVal 1]]" app_canal start_state "users_table ''app''"
        "[rows_env WRITE_ROWS_EVENTv2]"]
    row_action_mapping
    [of WRITE_ROWS_EVENTv0 "rows_env WRITE_ROWS_EVENTv2" "rows_event WRITE_ROWS_EVENTv2"
        "''app''" "''users''" "[[IntVal 1]]" app_canal start_state "users_table ''app''" "[]"]
  by (simp add: isSkipedSchema_def action_of_def WRITE_ROWS_EVENTv0_def
      WRITE_ROWS_EVENTv1_def WRITE_ROWS_EVENTv2_def DELETE_ROWS_EVENTv1_def
      DELETE_ROWS_EVENTv2_def UPDATE_ROWS_EVENTv1_def UPDATE_ROWS_EVENTv2_def)

subsection \<open>One iteration of the loop\<close>

lemma save_step_effects:
  "snd (save_step env s effs) =
     effs @ [MasterUpdate (Name (pos s)) (Pos' (pos s)), MasterSave (forceSavePos s)] @
     (if masterSave env (forceSavePos s) = (True, None) \<and> getMasterInfoHandler env \<noteq> None
      then [SavePos (Name (pos s)) (Pos' (pos s))] else [])"
  by (cases "masterSave env (forceSavePos s)")
     (auto simp: save_step_def Let_def split: option.splits)

lemma save_step_result:
  "fst (save_step env s effs) =
     (case masterSave env (forceSavePos s) of
        (saved, Some err) \<Rightarrow> Inl (Trace err)
      | (saved, None) \<Rightarrow>
          (case (if saved then getMasterInfoHandler env else None) of
             Some h \<Rightarrow>
               (case h (Name (pos s)) (Pos' (pos s)) of
                  Some err \<Rightarrow> Inl err
                | None \<Rightarrow> Inr (s\<lparr>posSaved := saved\<rparr>))
           | None \<Rightarrow> Inr (s\<lparr>posSaved := saved\<rparr>)))"
  by (cases "masterSave env (forceSavePos s)")
     (auto simp: save_step_def Let_def split: option.splits)

lemma handleRowsEvent_no_position_call:
  "filter position_call (snd (snd (handleRowsEvent c env ev l))) = []"
  by (auto simp: handleRowsEvent_def isSkipedSchema_result split: Event.splits sum.splits)

lemma step_timeout:
  "getEvent env = Inl DeadlineExceeded \<Longrightarrow>
   step c env s = (Inr (s\<lparr>timeout := 2 * timeout s\<rparr>), [GetEvent (2 * Second)])"
  by (simp add: step_def)

lemma step_transport_error:
  "getEvent env = Inl err \<Longrightarrow> err \<noteq> DeadlineExceeded \<Longrightarrow>
   step c env s = (Inl (Trace err), [GetEvent (2 * Second)])"
  by (simp add: step_def)

lemma step_rotate:
  "getEvent env = Inr ev \<Longrightarrow> Event ev = RotateEvent p n \<Longrightarrow>
   step c env s =
     save_step env
       (s\<lparr>timeout := Second, pos := \<lparr>Name = n, Pos' = ucast p\<rparr>, forceSavePos := True\<rparr>)
       [GetEvent (2 * Second), LogRotate \<lparr>Name = n, Pos' = ucast p\<rparr>]"
  by (simp add: step_def Let_def)

lemma step_xid:
  "getEvent env = Inr ev \<Longrightarrow> Event ev = XIDEvent \<Longrightarrow>
   step c env s =
     save_step env
       (s\<lparr>timeout := Second, pos := (pos s)\<lparr>Pos' := LogPos (Header ev)\<rparr>,
          forceSavePos := False\<rparr>)
       [GetEvent (2 * Second)]"
  by (simp add: step_def Let_def)

lemma step_query_match:
  "getEvent env = Inr ev \<Longrightarrow> Event ev = QueryEvent schema q \<Longrightarrow>
   FindSubmatch expAlterTable q = Some mb \<Longrightarrow>
   step c env s =
     save_step env
       (s\<lparr>timeout := Second, pos := (pos s)\<lparr>Pos' := LogPos (Header ev)\<rparr>,
          forceSavePos := True\<rparr>)
       [GetEvent (2 * Second),
        ClearTableCache (if mb ! 1 = [] then schema else mb ! 1) (mb ! 2),
        LogClearTableCache (if mb ! 1 = [] then schema else mb ! 1) (mb ! 2)]"
  by (simp add: step_def Let_def)

lemma step_query_no_match:
  "getEvent env = Inr ev \<Longrightarrow> Event ev = QueryEvent schema q \<Longrightarrow>
   FindSubmatch expAlterTable q = None \<Longrightarrow>
   step c env s =
     (Inr (s\<lparr>timeout := Second, pos := (pos s)\<lparr>Pos' := LogPos (Header ev)\<rparr>,
             forceSavePos := False\<rparr>),
      [GetEvent (2 * Second)])"
  by (simp add: step_def Let_def)

lemma step_other:
  "getEvent env = Inr ev \<Longrightarrow> Event ev = OtherEvent \<Longrightarrow>
   step c env s =
     (Inr (s\<lparr>timeout := Second, pos := (pos s)\<lparr>Pos' := LogPos (Header ev)\<rparr>,
             forceSavePos := False\<rparr>),
      [GetEvent (2 * Second)])"
  by (simp add: step_def Let_def)

lemma step_rows_no_position_call:
  "getEvent env = Inr ev \<Longrightarrow> Event ev = RowsEvent schema table rows \<Longrightarrow>
   filter position_call (snd (step c env s)) = []"
  using handleRowsEvent_no_position_call
    [of c env ev "skipedSchemaList (s\<lparr>timeout := Second,
        pos := (pos s)\<lparr>Pos' := LogPos (Header ev)\<rparr>, forceSavePos := False\<rparr>)"]
  by (auto simp: step_def Let_def split: prod.splits option.splits)

subsection \<open>The expression on statements\<close>

lemmas rx_defs = FindSubmatch_def expAlterTable_def consume_def letter_def space_class_def
  any_char_def backtick_def period_def not_backtick_period_def

lemma find_quoted:
  "FindSubmatch expAlterTable ''ALTER TABLE `shop`.`orders` ADD COLUMN x INT'' =
     Some [''ALTER TABLE `shop`.`orders` ADD COLUMN x INT'', ''shop'', ''orders'']"
  by (simp add: rx_defs)

lemma find_plain:
  "FindSubmatch expAlterTable ''ALTER TABLE orders RENAME COLUMN ...'' =
     Some [''ALTER TABLE orders RENAME COLUMN ...'', [], ''orders'']"
  by (simp add: rx_defs)

lemma find_create:
  "FindSubmatch expAlterTable ''CREATE TABLE orders (...)'' = None"
  by (simp add: rx_defs)

lemma find_lower:
  "FindSubmatch expAlterTable ''alter table shop.orders add column x int'' =
     Some [''alter table shop.orders add column x int'', ''shop'', ''orders'']"
  by (simp add: rx_defs)

lemma find_mixed:
  "FindSubmatch expAlterTable ''Alter Table `orders` drop column x'' =
     Some [''Alter Table `orders` drop column x'', [], ''orders'']"
  by (simp add: rx_defs)

subsection \<open>Where the position is saved\<close>

text \<open>
  C1. The calls \<^verbatim>\<open>c.master.Update\<close>, \<^verbatim>\<open>c.master.Save\<close> and \<^verbatim>\<open>SavePos\<close> of one iteration:
  a rotate event, a transaction end (XID) and a query that the expression matches give
  \<^verbatim>\<open>Update\<close> with the new position and then \<^verbatim>\<open>Save\<close>, forced for the rotation and the
  matched query and not forced for the transaction end; \<^verbatim>\<open>SavePos\<close> follows exactly when
  \<^verbatim>\<open>Save\<close> answers that it persisted, without error, and a master-info handler is set.
  A pull that fails, a row event, a query that does not match and an event of any other
  type give none of the three calls; the last two go on to the next iteration.
\<close>

theorem save_points:
  "(getEvent env = Inl err \<longrightarrow> filter position_call (snd (step c env s)) = []) \<and>
   (getEvent env = Inr ev \<longrightarrow>
      (case Event ev of
         RotateEvent p n \<Rightarrow>
           filter position_call (snd (step c env s)) =
             [MasterUpdate n (ucast p), MasterSave True] @
             (if masterSave env True = (True, None) \<and> getMasterInfoHandler env \<noteq> None
              then [SavePos n (ucast p)] else [])
       | XIDEvent \<Rightarrow>
           filter position_call (snd (step c env s)) =
             [MasterUpdate (Name (pos s)) (LogPos (Header ev)), MasterSave False] @
             (if masterSave env False = (True, None) \<and> getMasterInfoHandler env \<noteq> None
              then [SavePos (Name (pos s)) (LogPos (Header ev))] else [])
       | QueryEvent schema q \<Rightarrow>
           (if FindSubmatch expAlterTable q \<noteq> None
            then filter position_call (snd (step c env s)) =
                   [MasterUpdate (Name (pos s)) (LogPos (Header ev)), MasterSave True] @
                   (if masterSave env True = (True, None) \<and> getMasterInfoHandler env \<noteq> None
                    then [SavePos (Name (pos s)) (LogPos (Header ev))] else [])
            else step c env s =
                   (Inr (s\<lparr>timeout := Second, pos := (pos s)\<lparr>Pos' := LogPos (Header ev)\<rparr>,
                           forceSavePos := False\<rparr>),
                    [GetEvent (2 * Second)]))
       | RowsEvent schema table rows \<Rightarrow> filter position_call (snd (step c env s)) = []
       | OtherEvent \<Rightarrow>
           step c env s =
             (Inr (s\<lparr>timeout := Second, pos := (pos s)\<lparr>Pos' := LogPos (Header ev)\<rparr>,
                     forceSavePos := False\<rparr>),
              [GetEvent (2 * Second)])))"
proof -
  have a: "filter position_call (snd (step c env s)) = []" if "getEvent env = Inl err"
    using that by (cases "err = DeadlineExceeded") (simp_all add: step_timeout step_transport_error)
  have b: ?thesis if ev: "getEvent env = Inr ev"
  proof (cases "Event ev")
    case (RotateEvent p n)
    show ?thesis
      by (simp add: ev RotateEvent step_rotate [OF ev RotateEvent] save_step_effects)
  next
    case (RowsEvent schema table rows)
    show ?thesis
      by (simp add: ev RowsEvent step_rows_no_position_call [OF ev RowsEvent])
  next
    case XIDEvent
    show ?thesis
      by (simp add: ev XIDEvent step_xid [OF ev XIDEvent] save_step_effects)
  next
    case (QueryEvent schema q)
    show ?thesis
    proof (cases "FindSubmatch expAlterTable q")
      case None
      show ?thesis
        by (simp add: ev QueryEvent None step_query_no_match [OF ev QueryEvent None])
    next
      case (Some mb)
      show ?thesis
        by (simp add: ev QueryEvent Some step_query_match [OF ev QueryEvent Some]
            save_step_effects)
    qed
  next
    case OtherEvent
    show ?thesis
      by (simp add: ev OtherEvent step_other [OF ev OtherEvent])
  qed
  show ?thesis
  proof (cases "getEvent env = Inr ev")
    case True
    then show ?thesis by (rule b)
  next
    case False
    then show ?thesis using a by simp
  qed
qed

theorem save_points_witness:
  "getEvent (sink_env (Inr rotate_event)) = Inr rotate_event \<and>
   filter position_call (snd (step app_canal (sink_env (Inr rotate_event)) start_state)) =
     [MasterUpdate ''bin.000002'' 4, MasterSave True, SavePos ''bin.000002'' 4] \<and>
   filter position_call (snd (step app_canal (sink_env (Inr xid_event)) start_state)) =
     [MasterUpdate ''bin.000001'' 250, MasterSave False] \<and>
   filter position_call
     (snd (step app_canal (sink_env (Inr (query_event ''ALTER TABLE orders RENAME COLUMN ...'')))
        start_state)) =
     [MasterUpdate ''bin.000001'' 400, MasterSave True, SavePos ''bin.000001'' 400] \<and>
   filter position_call
     (snd (step app_canal (sink_env (Inr (query_event ''CREATE TABLE orders (...)'')))
        start_state)) = [] \<and>
   filter position_call (snd (step app_canal (sink_env (Inr skiped_rows_event)) start_state)) = [] \<and>
   filter position_call (snd (step app_canal (sink_env (Inr other_event)) start_state)) = [] \<and>
   filter position_call (snd (step app_canal (sink_env (Inl DeadlineExceeded)) start_state)) = []"
  using
    save_points [of "sink_env (Inr rotate_event)" DeadlineExceeded app_canal start_state
      rotate_event]
    save_points [of "sink_env (Inr xid_event)" DeadlineExceeded app_canal start_state xid_event]
    save_points [of "sink_env (Inr (query_event ''ALTER TABLE orders RENAME COLUMN ...''))"
      DeadlineExceeded app_canal start_state "query_event ''ALTER TABLE orders RENAME COLUMN ...''"]
    save_points [of "sink_env (Inr (query_event ''CREATE TABLE orders (...)''))"
      DeadlineExceeded app_canal start_state "query_event ''CREATE TABLE orders (...)''"]
    save_points [of "sink_env (Inr skiped_rows_event)" DeadlineExceeded app_canal start_state
      skiped_rows_event]
    save_points [of "sink_env (Inr other_event)" DeadlineExceeded app_canal start_state
      other_event]
    save_points [of "sink_env (Inl DeadlineExceeded)" DeadlineExceeded app_canal start_state
      other_event]
  by (simp add: find_plain find_create)

subsection \<open>Errors that end the loop\<close>

lemma iterate_return:
  "step c env s = (Inl err, effs) \<Longrightarrow> iterate c (env # envs) s = (Returned err, effs)"
  by simp

lemma save_step_fail_save:
  "masterSave env (forceSavePos s) = (b, Some err) \<Longrightarrow>
   save_step env s effs =
     (Inl (Trace err),
      effs @ [MasterUpdate (Name (pos s)) (Pos' (pos s)), MasterSave (forceSavePos s)])"
  by (simp add: save_step_def Let_def)

lemma save_step_fail_sink:
  "masterSave env (forceSavePos s) = (True, None) \<Longrightarrow> getMasterInfoHandler env = Some h \<Longrightarrow>
   h (Name (pos s)) (Pos' (pos s)) = Some err \<Longrightarrow>
   save_step env s effs =
     (Inl err,
      effs @ [MasterUpdate (Name (pos s)) (Pos' (pos s)), MasterSave (forceSavePos s),
              SavePos (Name (pos s)) (Pos' (pos s))])"
  by (simp add: save_step_def Let_def)

lemma step_save_point:
  assumes ev: "getEvent env = Inr ev"
    and kind: "Event ev = RotateEvent p n \<and> force \<and> name = n \<and> off = ucast p \<or>
       Event ev = XIDEvent \<and> \<not> force \<and> name = Name (pos s) \<and> off = LogPos (Header ev) \<or>
       Event ev = QueryEvent schema q \<and> FindSubmatch expAlterTable q \<noteq> None \<and> force \<and>
         name = Name (pos s) \<and> off = LogPos (Header ev)"
  shows "\<exists>effs. step c env s =
           save_step env
             (s\<lparr>timeout := Second, pos := \<lparr>Name = name, Pos' = off\<rparr>, forceSavePos := force\<rparr>)
             effs"
proof -
  have p: "(pos s)\<lparr>Pos' := x\<rparr> = \<lparr>Name = Name (pos s), Pos' = x\<rparr>" for x
    by simp
  from kind consider
      (rot) "Event ev = RotateEvent p n" "force" "name = n" "off = ucast p"
    | (xid) "Event ev = XIDEvent" "\<not> force" "name = Name (pos s)" "off = LogPos (Header ev)"
    | (ddl) mb where "Event ev = QueryEvent schema q" "FindSubmatch expAlterTable q = Some mb"
        "force" "name = Name (pos s)" "off = LogPos (Header ev)"
    by auto
  then show ?thesis
  proof cases
    case rot
    then show ?thesis using step_rotate [OF ev rot(1)] by auto
  next
    case xid
    then show ?thesis using step_xid [OF ev xid(1)] by (auto simp: p)
  next
    case ddl
    then show ?thesis using step_query_match [OF ev ddl(1) ddl(2)] by (auto simp: p)
  qed
qed

text \<open>
  C7. The loop returns at once, with the error and without another call, when
  \<^verbatim>\<open>GetEvent\<close> fails with an error that is not the deadline, when a row handler fails,
  when the type of a row event that reaches the switch is not supported, when
  \<^verbatim>\<open>c.master.Save\<close> fails and when \<^verbatim>\<open>SavePos\<close> of the master-info handler fails: the
  answers for later iterations are never read. Only the deadline of the pull lets the
  loop go on.
\<close>

theorem fatal_errors:
  "(getEvent env = Inl err \<and> err \<noteq> DeadlineExceeded \<longrightarrow>
      iterate c (env # envs) s = (Returned (Trace err), [GetEvent (2 * Second)])) \<and>
   (getEvent env = Inl DeadlineExceeded \<longrightarrow>
      iterate c (env # envs) s =
        (fst (iterate c envs (s\<lparr>timeout := 2 * timeout s\<rparr>)),
         GetEvent (2 * Second) # snd (iterate c envs (s\<lparr>timeout := 2 * timeout s\<rparr>)))) \<and>
   (getEvent env = Inr ev \<and> Event ev = RowsEvent schema table rows \<and>
    \<not> fst (isSkipedSchema c schema (skipedSchemaList s)) \<and>
    getTable env schema table = Inr tb \<longrightarrow>
      (\<forall>a. action_of (EventType (Header ev)) = Inr a \<and>
           travelRowsEventHandler env (newRowsEvent tb a rows) = Some err \<longrightarrow>
         iterate c (env # envs) s =
           (Returned (Trace err),
            [GetEvent (2 * Second), GetTable schema table,
             TravelRowsEventHandler (newRowsEvent tb a rows), LogHandleRowsError err])) \<and>
      (action_of (EventType (Header ev)) = Inl err \<longrightarrow>
         iterate c (env # envs) s =
           (Returned (Trace err),
            [GetEvent (2 * Second), GetTable schema table, LogHandleRowsError err]))) \<and>
   (getEvent env = Inr ev \<and>
    (Event ev = RotateEvent p n \<and> force \<and> name = n \<and> off = ucast p \<or>
     Event ev = XIDEvent \<and> \<not> force \<and> name = Name (pos s) \<and> off = LogPos (Header ev) \<or>
     Event ev = QueryEvent schema q \<and> FindSubmatch expAlterTable q \<noteq> None \<and> force \<and>
       name = Name (pos s) \<and> off = LogPos (Header ev)) \<longrightarrow>
      (\<forall>b. masterSave env force = (b, Some err) \<longrightarrow>
         fst (iterate c (env # envs) s) = Returned (Trace err) \<and>
         filter position_call (snd (iterate c (env # envs) s)) =
           [MasterUpdate name off, MasterSave force]) \<and>
      (\<forall>h. masterSave env force = (True, None) \<and> getMasterInfoHandler env = Some h \<and>
           h name off = Some err \<longrightarrow>
         fst (iterate c (env # envs) s) = Returned err \<and>
         filter position_call (snd (iterate c (env # envs) s)) =
           [MasterUpdate name off, MasterSave force, SavePos name off]))"
proof -
  have t: "iterate c (env # envs) s = (Returned (Trace err), [GetEvent (2 * Second)])"
    if "getEvent env = Inl err" "err \<noteq> DeadlineExceeded"
    using step_transport_error [OF that] by (rule iterate_return)
  have d: "iterate c (env # envs) s =
        (fst (iterate c envs (s\<lparr>timeout := 2 * timeout s\<rparr>)),
         GetEvent (2 * Second) # snd (iterate c envs (s\<lparr>timeout := 2 * timeout s\<rparr>)))"
    if "getEvent env = Inl DeadlineExceeded"
    by (simp add: step_timeout [OF that] split: prod.splits)
  have r: "(\<forall>a. action_of (EventType (Header ev)) = Inr a \<and>
           travelRowsEventHandler env (newRowsEvent tb a rows) = Some err \<longrightarrow>
         iterate c (env # envs) s =
           (Returned (Trace err),
            [GetEvent (2 * Second), GetTable schema table,
             TravelRowsEventHandler (newRowsEvent tb a rows), LogHandleRowsError err])) \<and>
      (action_of (EventType (Header ev)) = Inl err \<longrightarrow>
         iterate c (env # envs) s =
           (Returned (Trace err),
            [GetEvent (2 * Second), GetTable schema table, LogHandleRowsError err]))"
    if "getEvent env = Inr ev" "Event ev = RowsEvent schema table rows"
      "\<not> fst (isSkipedSchema c schema (skipedSchemaList s))"
      "getTable env schema table = Inr tb"
    using step_rows_not_skiped [OF that] by auto
  have sv: "(\<forall>b. masterSave env force = (b, Some err) \<longrightarrow>
         fst (iterate c (env # envs) s) = Returned (Trace err) \<and>
         filter position_call (snd (iterate c (env # envs) s)) =
           [MasterUpdate name off, MasterSave force]) \<and>
      (\<forall>h. masterSave env force = (True, None) \<and> getMasterInfoHandler env = Some h \<and>
           h name off = Some err \<longrightarrow>
         fst (iterate c (env # envs) s) = Returned err \<and>
         filter position_call (snd (iterate c (env # envs) s)) =
           [MasterUpdate name off, MasterSave force, SavePos name off])"
    if ev: "getEvent env = Inr ev"
      and kind: "Event ev = RotateEvent p n \<and> force \<and> name = n \<and> off = ucast p \<or>
        Event ev = XIDEvent \<and> \<not> force \<and> name = Name (pos s) \<and> off = LogPos (Header ev) \<or>
        Event ev = QueryEvent schema q \<and> FindSubmatch expAlterTable q \<noteq> None \<and> force \<and>
          name = Name (pos s) \<and> off = LogPos (Header ev)"
  proof -
    obtain effs where st: "step c env s =
        save_step env
          (s\<lparr>timeout := Second, pos := \<lparr>Name = name, Pos' = off\<rparr>, forceSavePos := force\<rparr>)
          effs"
      using step_save_point [OF ev kind] by blast
    have none: "filter position_call effs = []"
    proof -
      have "filter position_call (snd (step c env s)) =
        filter position_call effs @ [MasterUpdate name off, MasterSave force] @
          (if masterSave env force = (True, None) \<and> getMasterInfoHandler env \<noteq> None
           then [SavePos name off] else [])"
        by (simp add: st save_step_effects)
      moreover have "filter position_call (snd (step c env s)) =
        [MasterUpdate name off, MasterSave force] @
          (if masterSave env force = (True, None) \<and> getMasterInfoHandler env \<noteq> None
           then [SavePos name off] else [])"
        using kind step_rotate [OF ev] step_xid [OF ev] step_query_match [OF ev]
        by (auto simp: save_step_effects)
      ultimately show ?thesis by simp
    qed
    show ?thesis
    proof (intro conjI allI impI)
      fix b assume a: "masterSave env force = (b, Some err)"
      have "step c env s = (Inl (Trace err), effs @ [MasterUpdate name off, MasterSave force])"
        unfolding st using save_step_fail_save [of env _ b err effs] a by simp
      then have i: "iterate c (env # envs) s =
          (Returned (Trace err), effs @ [MasterUpdate name off, MasterSave force])"
        by (rule iterate_return)
      show "fst (iterate c (env # envs) s) = Returned (Trace err)" unfolding i by simp
      show "filter position_call (snd (iterate c (env # envs) s)) =
          [MasterUpdate name off, MasterSave force]"
        unfolding i using none by simp
    next
      fix h assume a: "masterSave env force = (True, None) \<and> getMasterInfoHandler env = Some h \<and>
           h name off = Some err"
      have "step c env s =
          (Inl err, effs @ [MasterUpdate name off, MasterSave force, SavePos name off])"
        unfolding st using save_step_fail_sink [of env _ h err effs] a by simp
      then have i: "iterate c (env # envs) s =
          (Returned err, effs @ [MasterUpdate name off, MasterSave force, SavePos name off])"
        by (rule iterate_return)
      show "fst (iterate c (env # envs) s) = Returned err" unfolding i by simp
      show "filter position_call (snd (iterate c (env # envs) s)) =
          [MasterUpdate name off, MasterSave force, SavePos name off]"
        unfolding i using none by simp
    qed
  qed
  show ?thesis
    using t d r sv by blast
qed

theorem fatal_errors_witness:
  "iterate app_canal
     [quiet_env (Inl (External ''connection reset'')), quiet_env (Inr xid_event)] start_state =
     (Returned (Trace (External ''connection reset'')), [GetEvent (2 * Second)]) \<and>
   iterate app_canal
     [quiet_env (Inl DeadlineExceeded), quiet_env (Inl (External ''connection reset''))]
     start_state =
     (Returned (Trace (External ''connection reset'')),
      [GetEvent (2 * Second), GetEvent (2 * Second)]) \<and>
   iterate app_canal
     [(rows_env WRITE_ROWS_EVENTv2)\<lparr>travelRowsEventHandler := \<lambda>e. Some (External ''handler'')\<rparr>,
      quiet_env (Inr xid_event)] start_state =
     (Returned (Trace (External ''handler'')),
      [GetEvent (2 * Second), GetTable ''app'' ''users'',
       TravelRowsEventHandler (newRowsEvent (users_table ''app'') InsertAction [[IntVal 1]]),
       LogHandleRowsError (External ''handler'')]) \<and>
   iterate app_canal [rows_env WRITE_ROWS_EVENTv0, quiet_env (Inr xid_event)] start_state =
     (Returned (Trace (NotSupported WRITE_ROWS_EVENTv0)),
      [GetEvent (2 * Second), GetTable ''app'' ''users'',
       LogHandleRowsError (NotSupported WRITE_ROWS_EVENTv0)]) \<and>
   fst (iterate app_canal
     [(quiet_env (Inr xid_event))\<lparr>masterSave := \<lambda>force. (False, Some (External ''disk''))\<rparr>,
      quiet_env (Inr xid_event)] start_state) = Returned (Trace (External ''disk'')) \<and>
   fst (iterate app_canal
     [(quiet_env (Inr rotate_event))
        \<lparr>getMasterInfoHandler := Some (\<lambda>name p. Some (External ''sink''))\<rparr>,
      quiet_env (Inr xid_event)] start_state) = Returned (External ''sink'')"
  using
    fatal_errors [of "quiet_env (Inl (External ''connection reset''))" "External ''connection reset''"
      app_canal "[quiet_env (Inr xid_event)]" start_state]
    fatal_errors [of "quiet_env (Inl DeadlineExceeded)" "External ''connection reset''"
      app_canal "[quiet_env (Inl (External ''connection reset''))]" start_state]
    fatal_errors [of "quiet_env (Inl (External ''connection reset''))" "External ''connection reset''"
      app_canal "[]" "start_state\<lparr>timeout := 2 * Second\<rparr>"]
    fatal_errors [of
      "(rows_env WRITE_ROWS_EVENTv2)\<lparr>travelRowsEventHandler := \<lambda>e. Some (External ''handler'')\<rparr>"
      "External ''handler''" app_canal "[quiet_env (Inr xid_event)]" start_state
      "rows_event WRITE_ROWS_EVENTv2" "''app''" "''users''" "[[IntVal 1]]" "users_table ''app''"]
    fatal_errors [of "rows_env WRITE_ROWS_EVENTv0" "NotSupported WRITE_ROWS_EVENTv0"
      app_canal "[quiet_env (Inr xid_event)]" start_state
      "rows_event WRITE_ROWS_EVENTv0" "''app''" "''users''" "[[IntVal 1]]" "users_table ''app''"]
    fatal_errors [of
      "(quiet_env (Inr xid_event))\<lparr>masterSave := \<lambda>force. (False, Some (External ''disk''))\<rparr>"
      "External ''disk''" app_canal "[quiet_env (Inr xid_event)]" start_state xid_event
      _ _ _ _ _ _ False "''bin.000001''" 250]
    fatal_errors [of
      "(quiet_env (Inr rotate_event))
         \<lparr>getMasterInfoHandler := Some (\<lambda>name p. Some (External ''sink''))\<rparr>"
      "External ''sink''" app_canal "[quiet_env (Inr xid_event)]" start_state rotate_event
      _ _ _ _ 4 "''bin.000002''" True "''bin.000002''" 4]
  by (simp add: step_def handleRowsEvent_def save_step_def newRowsEvent_def
      isSkipedSchema_def action_of_def WRITE_ROWS_EVENTv0_def
      WRITE_ROWS_EVENTv1_def WRITE_ROWS_EVENTv2_def DELETE_ROWS_EVENTv1_def
      DELETE_ROWS_EVENTv2_def UPDATE_ROWS_EVENTv1_def UPDATE_ROWS_EVENTv2_def)

subsection \<open>A row event of a skipped schema\<close>

text \<open>
  C6. A row event whose schema \<^verbatim>\<open>isSkipedSchema\<close> skips: the offset of the position is set
  to \<^verbatim>\<open>LogPos\<close> of the header; \<^verbatim>\<open>GetTable\<close> is not called, no row record is built or
  handed to the handlers, and the position is neither updated, saved nor sent to the
  master-info handler. Of the state, the offset changes, the timeout and the force flag
  are reset as for every received event, and the schema is appended to the global skip
  list, with its log line, when the list does not hold it yet; nothing else changes.
\<close>

theorem skiped_rows_event_frame:
  "getEvent env = Inr ev \<and> Event ev = RowsEvent schema table rows \<and>
   fst (isSkipedSchema c schema (skipedSchemaList s)) \<longrightarrow>
     step c env s =
       (Inr (s\<lparr>timeout := Second,
               pos := (pos s)\<lparr>Pos' := LogPos (Header ev)\<rparr>,
               forceSavePos := False,
               skipedSchemaList :=
                 (if schema \<in> set (skipedSchemaList s) then skipedSchemaList s
                  else skipedSchemaList s @ [schema])\<rparr>),
        GetEvent (2 * Second) #
          (if schema \<in> set (skipedSchemaList s) then []
           else [LogSkiped schema (TableDB c)]))"
  by (simp add: step_def handleRowsEvent_def isSkipedSchema_result Let_def)

theorem skiped_rows_event_frame_witness:
  "getEvent (quiet_env (Inr skiped_rows_event)) = Inr skiped_rows_event \<and>
   fst (isSkipedSchema app_canal ''other'' [''other'']) \<and>
   step app_canal (quiet_env (Inr skiped_rows_event))
        (start_state\<lparr>timeout := 4 * Second, forceSavePos := True,
                      skipedSchemaList := [''other'']\<rparr>) =
     (Inr (start_state\<lparr>pos := \<lparr>Name = ''bin.000001'', Pos' = 120\<rparr>,
                        skipedSchemaList := [''other'']\<rparr>),
      [GetEvent (2 * Second)])"
  using skiped_rows_event_frame
    [of "quiet_env (Inr skiped_rows_event)" skiped_rows_event "''other''" "''users''"
        "[[IntVal 1]]" app_canal
        "start_state\<lparr>timeout := 4 * Second, forceSavePos := True,
                      skipedSchemaList := [''other'']\<rparr>"]
  by (simp add: isSkipedSchema_def)

theorem skiped_rows_event_counterexample:
  "fst (isSkipedSchema app_canal ''other'' (skipedSchemaList start_state)) \<and>
   step app_canal (quiet_env (Inr skiped_rows_event)) (start_state\<lparr>timeout := 2 * Second\<rparr>) =
     (Inr (start_state\<lparr>pos := \<lparr>Name = ''bin.000001'', Pos' = 120\<rparr>,
                        skipedSchemaList := [''other'']\<rparr>),
      [GetEvent (2 * Second), LogSkiped ''other'' ''app'']) \<and>
   fst (step app_canal (quiet_env (Inr skiped_rows_event))
          (start_state\<lparr>timeout := 2 * Second\<rparr>)) \<noteq>
     Inr (start_state\<lparr>timeout := 2 * Second, pos := \<lparr>Name = ''bin.000001'', Pos' = 120\<rparr>\<rparr>)"
  by (simp add: step_def handleRowsEvent_def isSkipedSchema_def Second_def)

subsection \<open>The timeout of the pull\<close>

lemma iterate_deadlines:
  "\<forall>env \<in> set envs. getEvent env = Inl DeadlineExceeded \<Longrightarrow>
   iterate c envs s =
     (Running (s\<lparr>timeout := 2 ^ length envs * timeout s\<rparr>),
      replicate (length envs) (GetEvent (2 * Second)))"
proof (induction envs arbitrary: s)
  case Nil
  then show ?case by simp
next
  case (Cons env envs)
  have e: "getEvent env = Inl DeadlineExceeded" using Cons.prems by simp
  have r: "\<forall>env \<in> set envs. getEvent env = Inl DeadlineExceeded" using Cons.prems by simp
  show ?case
    by (simp add: step_timeout [OF e] Cons.IH [OF r] mult.assoc [symmetric]
        mult.commute [of 2])
qed

lemma save_step_timeout:
  "save_step env s effs = (Inr s', effs') \<Longrightarrow> timeout s' = timeout s"
  by (cases "masterSave env (forceSavePos s)")
     (auto simp: save_step_def Let_def split: option.splits if_splits)

lemma step_received_timeout:
  assumes ev: "getEvent env = Inr ev" and st: "step c env s = (Inr s', effs)"
  shows "timeout s' = Second"
proof (cases "Event ev")
  case (RotateEvent p n)
  show ?thesis using st save_step_timeout unfolding step_rotate [OF ev RotateEvent] by fastforce
next
  case (RowsEvent schema table rows)
  show ?thesis using st
    by (simp add: step_def ev RowsEvent Let_def split: prod.splits option.splits) auto
next
  case XIDEvent
  show ?thesis using st save_step_timeout unfolding step_xid [OF ev XIDEvent] by fastforce
next
  case (QueryEvent schema q)
  show ?thesis
  proof (cases "FindSubmatch expAlterTable q")
    case None
    show ?thesis using st unfolding step_query_no_match [OF ev QueryEvent None] by auto
  next
    case (Some mb)
    show ?thesis using st save_step_timeout
      unfolding step_query_match [OF ev QueryEvent Some] by fastforce
  qed
next
  case OtherEvent
  show ?thesis using st unfolding step_other [OF ev OtherEvent] by auto
qed

lemma handleRowsEvent_no_pull:
  "GetEvent d \<notin> set (snd (snd (handleRowsEvent c env ev l)))"
  by (auto simp: handleRowsEvent_def isSkipedSchema_result split: Event.splits sum.splits)

lemma step_pull_wait:
  assumes "GetEvent d \<in> set (snd (step c env s))"
  shows "d = 2 * Second"
proof (cases "getEvent env")
  case (Inl err)
  then show ?thesis using assms
    by (cases "err = DeadlineExceeded") (simp_all add: step_timeout step_transport_error)
next
  case (Inr ev)
  show ?thesis
  proof (cases "Event ev")
    case (RotateEvent p n)
    show ?thesis using assms
      unfolding step_rotate [OF Inr RotateEvent] save_step_effects by (simp split: if_splits)
  next
    case (RowsEvent schema table rows)
    show ?thesis using assms handleRowsEvent_no_pull [of d c env ev "skipedSchemaList s"]
      by (simp add: step_def Inr RowsEvent Let_def split: prod.splits option.splits)
  next
    case XIDEvent
    show ?thesis using assms
      unfolding step_xid [OF Inr XIDEvent] save_step_effects by (simp split: if_splits)
  next
    case (QueryEvent schema q)
    show ?thesis
    proof (cases "FindSubmatch expAlterTable q")
      case None
      show ?thesis using assms unfolding step_query_no_match [OF Inr QueryEvent None] by simp
    next
      case (Some mb)
      show ?thesis using assms
        unfolding step_query_match [OF Inr QueryEvent Some] save_step_effects
        by (simp split: if_splits)
    qed
  next
    case OtherEvent
    show ?thesis using assms unfolding step_other [OF Inr OtherEvent] by simp
  qed
qed

lemma iterate_pull_wait:
  "GetEvent d \<in> set (snd (iterate c envs s)) \<Longrightarrow> d = 2 * Second"
proof (induction envs arbitrary: s)
  case Nil
  then show ?case by simp
next
  case (Cons env envs)
  obtain r effs where st: "step c env s = (r, effs)" by (cases "step c env s")
  have e: "GetEvent d \<in> set effs \<Longrightarrow> d = 2 * Second"
    using step_pull_wait [of d c env s] by (simp add: st)
  show ?case
  proof (cases r)
    case (Inl err)
    then show ?thesis using Cons.prems e by (simp add: st)
  next
    case (Inr s')
    then show ?thesis using Cons.prems e Cons.IH [of s']
      by (auto simp: st split: prod.splits)
  qed
qed

lemma backoff_value_small:
  assumes "n \<le> 33"
  shows "sint ((2 ^ n * Second) :: Duration) = 2 ^ n * 1000000000"
proof -
  have "(2::int) ^ n \<le> 2 ^ 33" using assms by (intro power_increasing) simp_all
  then have b: "(2::int) ^ n * 1000000000 < 2 ^ 63" by simp
  have w: "((2 ^ n * Second) :: Duration) = word_of_int (2 ^ n * 1000000000)"
    by (simp add: Second_def)
  have "sint (word_of_int (2 ^ n * 1000000000) :: Duration) =
      signed_take_bit 63 (2 ^ n * 1000000000)"
    by (simp only: signed_of_int) simp
  then have "sint ((2 ^ n * Second) :: Duration) = signed_take_bit 63 (2 ^ n * 1000000000)"
    by (simp only: w)
  also have "\<dots> = 2 ^ n * 1000000000"
  proof (rule signed_take_bit_int_eq_self)
    have "- (2 ^ 63) \<le> (0::int)" by simp
    also have "(0::int) \<le> 2 ^ n * 1000000000" by simp
    finally show "- (2 ^ 63) \<le> (2::int) ^ n * 1000000000" .
    show "(2::int) ^ n * 1000000000 < 2 ^ 63" by (rule b)
  qed
  finally show ?thesis .
qed

lemma backoff_value_wraps:
  "sint ((2 ^ 34 * Second) :: Duration) = - 1266874889709551616"
  "(2 ^ 55 * Second :: Duration) = 0"
  by (simp_all add: Second_def)

text \<open>
  C2. The wait of every pull is the constant of \<^verbatim>\<open>context.WithTimeout\<close>, two seconds:
  the variable \<^verbatim>\<open>timeout\<close>, which a deadline doubles and a received event resets to one
  second, is never handed to \<^verbatim>\<open>GetEvent\<close>. After two deadlines the variable is four
  seconds and both pulls waited two seconds, as does the pull after a received event.
  The variable is an int64: after 34 deadlines in a row it is negative.
\<close>

theorem backoff_not_applied:
  "iterate app_canal [quiet_env (Inl DeadlineExceeded), quiet_env (Inl DeadlineExceeded)]
     start_state =
     (Running (start_state\<lparr>timeout := 4 * Second\<rparr>),
      [GetEvent (2 * Second), GetEvent (2 * Second)]) \<and>
   iterate app_canal
     [quiet_env (Inl DeadlineExceeded), quiet_env (Inl DeadlineExceeded),
      quiet_env (Inr other_event), quiet_env (Inl DeadlineExceeded)] start_state =
     (Running (start_state\<lparr>timeout := 2 * Second, pos := \<lparr>Name = ''bin.000001'', Pos' = 90\<rparr>\<rparr>),
      [GetEvent (2 * Second), GetEvent (2 * Second), GetEvent (2 * Second),
       GetEvent (2 * Second)]) \<and>
   iterate app_canal (replicate 34 (quiet_env (Inl DeadlineExceeded))) start_state =
     (Running (start_state\<lparr>timeout := 2 ^ 34 * Second\<rparr>),
      replicate 34 (GetEvent (2 * Second))) \<and>
   sint ((2 ^ 34 * Second) :: Duration) = - 1266874889709551616"
proof -
  have "iterate app_canal (replicate 34 (quiet_env (Inl DeadlineExceeded))) start_state =
     (Running (start_state\<lparr>timeout := 2 ^ 34 * Second\<rparr>),
      replicate 34 (GetEvent (2 * Second)))"
    using iterate_deadlines
      [of "replicate 34 (quiet_env (Inl DeadlineExceeded))" app_canal start_state]
    by simp
  moreover have "iterate app_canal
     [quiet_env (Inl DeadlineExceeded), quiet_env (Inl DeadlineExceeded)] start_state =
     (Running (start_state\<lparr>timeout := 4 * Second\<rparr>),
      [GetEvent (2 * Second), GetEvent (2 * Second)])"
    by (simp add: step_def)
  moreover have "iterate app_canal
     [quiet_env (Inl DeadlineExceeded), quiet_env (Inl DeadlineExceeded),
      quiet_env (Inr other_event), quiet_env (Inl DeadlineExceeded)] start_state =
     (Running (start_state\<lparr>timeout := 2 * Second, pos := \<lparr>Name = ''bin.000001'', Pos' = 90\<rparr>\<rparr>),
      [GetEvent (2 * Second), GetEvent (2 * Second), GetEvent (2 * Second),
       GetEvent (2 * Second)])"
    by (simp add: step_def)
  ultimately show ?thesis
    using backoff_value_wraps(1) by simp
qed

subsection \<open>Waiting for a position\<close>

lemma poll_interval: "unat (100 * Millisecond) = 100000000"
  by (simp add: Millisecond_def)

lemma wait_loop_fired:
  "d \<le> int now \<Longrightarrow> wait_loop cmp mp p d now = (Some (WaitPositionError p), now)"
  by (subst wait_loop.simps) simp

lemma wait_loop_reached:
  "int now < d \<Longrightarrow> 0 \<le> cmp (mp now) p \<Longrightarrow> wait_loop cmp mp p d now = (None, now)"
  by (subst wait_loop.simps) simp

lemma wait_loop_sleep:
  "int now < d \<Longrightarrow> cmp (mp now) p < 0 \<Longrightarrow>
   wait_loop cmp mp p d now = wait_loop cmp mp p d (now + 100000000)"
  by (subst wait_loop.simps) (simp add: poll_interval)

lemma wait_loop_polls:
  assumes "k \<le> m"
    and "\<forall>j. k \<le> j \<and> j < m \<longrightarrow> int (j * 100000000) < d \<and> cmp (mp (j * 100000000)) p < 0"
  shows "wait_loop cmp mp p d (k * 100000000) = wait_loop cmp mp p d (m * 100000000)"
  using assms
proof (induction m rule: dec_induct)
  case base
  show ?case by simp
next
  case (step n)
  have "wait_loop cmp mp p d (k * 100000000) = wait_loop cmp mp p d (n * 100000000)"
    using step by simp
  also have "\<dots> = wait_loop cmp mp p d (n * 100000000 + 100000000)"
    using step by (intro wait_loop_sleep) simp_all
  finally show ?case by (simp add: algebra_simps)
qed

lemma duration_of_seconds:
  assumes "0 \<le> sint t" and "sint t \<le> 9223372036"
  shows "sint ((t * Second) :: Duration) = sint t * 1000000000"
proof -
  have w: "t * Second = (word_of_int (sint t * 1000000000) :: Duration)"
    by (simp add: Second_def)
  have "sint (word_of_int (sint t * 1000000000) :: Duration) =
      signed_take_bit 63 (sint t * 1000000000)"
    by (simp only: signed_of_int) simp
  also have "\<dots> = sint t * 1000000000"
  proof (rule signed_take_bit_int_eq_self)
    have "- (2 ^ 63) \<le> (0::int)" by simp
    also have "0 \<le> sint t * 1000000000" using assms by simp
    finally show "- (2 ^ 63) \<le> sint t * 1000000000" .
    have "sint t * 1000000000 \<le> 9223372036 * 1000000000" using assms by simp
    then show "sint t * 1000000000 < 2 ^ 63" by simp
  qed
  finally show ?thesis by (simp only: w)
qed

lemma wait_loop_success:
  assumes "\<forall>j<m. cmp (mp (j * 100000000)) p < 0"
    and "0 \<le> cmp (mp (m * 100000000)) p" and "int (m * 100000000) < d"
  shows "wait_loop cmp mp p d 0 = (None, m * 100000000)"
proof -
  have "wait_loop cmp mp p d (0 * 100000000) = wait_loop cmp mp p d (m * 100000000)"
    using assms by (intro wait_loop_polls) auto
  also have "\<dots> = (None, m * 100000000)"
    using assms by (intro wait_loop_reached)
  finally show ?thesis by simp
qed

lemma wait_loop_expires:
  assumes "\<forall>j<n. cmp (mp (j * 100000000)) p < 0" and "d = int (n * 100000000)"
  shows "wait_loop cmp mp p d 0 = (Some (WaitPositionError p), n * 100000000)"
proof -
  have "wait_loop cmp mp p d (0 * 100000000) = wait_loop cmp mp p d (n * 100000000)"
    using assms by (intro wait_loop_polls) auto
  also have "\<dots> = (Some (WaitPositionError p), n * 100000000)"
    using assms by (intro wait_loop_fired) simp
  finally show ?thesis by simp
qed

lemma WaitUntilPos_duration:
  "1 \<le> sint t \<Longrightarrow> sint t \<le> 9223372036 \<Longrightarrow>
   WaitUntilPos cmp mp p t = wait_loop cmp mp p (sint t * 1000000000) 0"
  by (simp add: WaitUntilPos_def duration_of_seconds)

lemma WaitUntilPos_default:
  "sint t \<le> 0 \<Longrightarrow> WaitUntilPos cmp mp p t = wait_loop cmp mp p 60000000000 0"
  by (simp add: WaitUntilPos_def Second_def)

text \<open>
  C8. For a timeout of 1 to 9223372036 seconds, the values whose count of nanoseconds
  fits the int64 of \<^verbatim>\<open>time.Duration\<close>: \<^verbatim>\<open>WaitUntilPos\<close> reads the position every 100
  milliseconds and returns nil at the first reading that compares greater than or equal
  to the target, when that reading comes before the timeout; when no reading before the
  timeout does, it returns the error at the timeout, which for one second and a tracker
  that stays below the target is one second after the call, not at once.
\<close>

theorem wait_until_pos:
  assumes "1 \<le> sint t" and "sint t \<le> 9223372036"
  shows "((\<forall>j<m. cmp (masterPos (j * 100000000)) p < 0) \<and>
          0 \<le> cmp (masterPos (m * 100000000)) p \<and> m < 10 * nat (sint t) \<longrightarrow>
            WaitUntilPos cmp masterPos p t = (None, m * 100000000)) \<and>
         ((\<forall>j < 10 * nat (sint t). cmp (masterPos (j * 100000000)) p < 0) \<longrightarrow>
            WaitUntilPos cmp masterPos p t =
              (Some (WaitPositionError p), nat (sint t) * 1000000000))"
proof -
  have a: "WaitUntilPos cmp masterPos p t = (None, m * 100000000)"
    if "\<forall>j<m. cmp (masterPos (j * 100000000)) p < 0"
      and "0 \<le> cmp (masterPos (m * 100000000)) p" and "m < 10 * nat (sint t)"
    unfolding WaitUntilPos_duration [OF assms]
    using that assms by (intro wait_loop_success) simp_all
  have b: "WaitUntilPos cmp masterPos p t =
        (Some (WaitPositionError p), nat (sint t) * 1000000000)"
    if "\<forall>j < 10 * nat (sint t). cmp (masterPos (j * 100000000)) p < 0"
    unfolding WaitUntilPos_duration [OF assms]
    using wait_loop_expires [of "10 * nat (sint t)" cmp masterPos p "sint t * 1000000000"]
      that assms by simp
  show ?thesis using a b by blast
qed

theorem wait_until_pos_witness:
  "1 \<le> sint (1 :: 64 word) \<and> sint (1 :: 64 word) \<le> 9223372036 \<and>
   WaitUntilPos Compare stuck_tracker target 1 =
     (Some (WaitPositionError target), 1000000000) \<and>
   WaitUntilPos Compare late_tracker target 2 = (None, 1000000000)"
  using wait_until_pos [of 1 10 Compare stuck_tracker target]
    wait_until_pos [of 2 10 Compare late_tracker target]
  by (simp add: Compare_def)

lemma wait_late_tracker:
  "WaitUntilPos Compare late_tracker target 2 = (None, 1000000000)"
  unfolding WaitUntilPos_duration [of 2, simplified]
  using wait_loop_success [of 10 Compare late_tracker target 2000000000]
  by (simp add: Compare_def)

theorem wait_until_pos_counterexample:
  "sint ((9223372037 * Second) :: Duration) = - 9223372036709551616 \<and>
   WaitUntilPos Compare late_tracker target 9223372037 = (Some (WaitPositionError target), 0) \<and>
   WaitUntilPos Compare late_tracker target 2 = (None, 1000000000)"
proof -
  have d: "sint ((9223372037 * Second) :: Duration) = - 9223372036709551616"
    by (simp add: Second_def)
  have "WaitUntilPos Compare late_tracker target 9223372037 =
      wait_loop Compare late_tracker target (- 9223372036709551616) 0"
    by (simp add: WaitUntilPos_def d)
  also have "\<dots> = (Some (WaitPositionError target), 0)"
    by (rule wait_loop_fired) simp
  finally show ?thesis using d wait_late_tracker by simp
qed

text \<open>
  C9. A timeout of zero or less is replaced by 60 seconds: the call returns what the
  call with 60 returns. It returns nil at the first reading, within the 60 seconds,
  that reaches the target, and the error after 60 seconds when none does.
\<close>

theorem wait_default_timeout:
  "sint t \<le> 0 \<longrightarrow>
     WaitUntilPos cmp masterPos p t = WaitUntilPos cmp masterPos p 60 \<and>
     ((\<forall>j<m. cmp (masterPos (j * 100000000)) p < 0) \<and>
      0 \<le> cmp (masterPos (m * 100000000)) p \<and> m < 600 \<longrightarrow>
        WaitUntilPos cmp masterPos p t = (None, m * 100000000)) \<and>
     ((\<forall>j<600. cmp (masterPos (j * 100000000)) p < 0) \<longrightarrow>
        WaitUntilPos cmp masterPos p t = (Some (WaitPositionError p), 60000000000))"
proof -
  have e: "WaitUntilPos cmp masterPos p 60 = wait_loop cmp masterPos p 60000000000 0"
    using WaitUntilPos_duration [of 60 cmp masterPos p] by simp
  have a: "wait_loop cmp masterPos p 60000000000 0 = (None, m * 100000000)"
    if "\<forall>j<m. cmp (masterPos (j * 100000000)) p < 0"
      and "0 \<le> cmp (masterPos (m * 100000000)) p" and "m < 600"
    using that by (intro wait_loop_success) simp_all
  have b: "wait_loop cmp masterPos p 60000000000 0 = (Some (WaitPositionError p), 60000000000)"
    if "\<forall>j<600. cmp (masterPos (j * 100000000)) p < 0"
    using wait_loop_expires [of 600 cmp masterPos p 60000000000] that by simp
  show ?thesis using a b by (auto simp: WaitUntilPos_default e)
qed

theorem wait_default_timeout_witness:
  "sint (0 :: 64 word) \<le> 0 \<and> sint (- 5 :: 64 word) \<le> 0 \<and>
   WaitUntilPos Compare stuck_tracker target 0 = WaitUntilPos Compare stuck_tracker target 60 \<and>
   WaitUntilPos Compare stuck_tracker target 0 =
     (Some (WaitPositionError target), 60000000000) \<and>
   WaitUntilPos Compare stuck_tracker target (- 5) =
     (Some (WaitPositionError target), 60000000000) \<and>
   WaitUntilPos Compare late_tracker target (- 5) = (None, 1000000000)"
proof -
  have z: "sint (0 :: 64 word) \<le> 0" and n: "sint (- 5 :: 64 word) \<le> 0"
    by simp_all
  have s: "\<forall>j<600. Compare (stuck_tracker (j * 100000000)) target < 0"
    by (simp add: Compare_def)
  have l: "(\<forall>j<10. Compare (late_tracker (j * 100000000)) target < 0) \<and>
      0 \<le> Compare (late_tracker (10 * 100000000)) target \<and> (10::nat) < 600"
    by (simp add: Compare_def)
  note f0 = wait_default_timeout [of 0 Compare stuck_tracker target 10, THEN mp, OF z]
  note f5 = wait_default_timeout [of "- 5" Compare stuck_tracker target 10, THEN mp, OF n]
  note g5 = wait_default_timeout [of "- 5" Compare late_tracker target 10, THEN mp, OF n]
  have a1: "WaitUntilPos Compare stuck_tracker target 0 =
      WaitUntilPos Compare stuck_tracker target 60"
    using f0 by (rule conjunct1)
  have a2: "WaitUntilPos Compare stuck_tracker target 0 =
      (Some (WaitPositionError target), 60000000000)"
    using f0 [THEN conjunct2, THEN conjunct2] s by (rule mp)
  have a3: "WaitUntilPos Compare stuck_tracker target (- 5) =
      (Some (WaitPositionError target), 60000000000)"
    using f5 [THEN conjunct2, THEN conjunct2] s by (rule mp)
  have "WaitUntilPos Compare late_tracker target (- 5) = (None, 10 * 100000000)"
    using g5 [THEN conjunct2, THEN conjunct1] l by (rule mp)
  then have a4: "WaitUntilPos Compare late_tracker target (- 5) = (None, 1000000000)"
    by simp
  show ?thesis
    using z n a1 a2 a3 a4 by (intro conjI)
qed

subsection \<open>The expression on statements of the expected shape\<close>

text \<open>
  The search on a statement \<^verbatim>\<open>ALTER TABLE [`schema`.]`table` ...\<close>: the lazy items take
  nothing until the rest of the expression fails, so the first group ends where the
  schema ends and the second where the table ends.
\<close>

lemma fold_consume_sel [simp]:
  "groups (fold consume u st) = groups st"
  "whole (fold consume u st) = whole st @ u"
  "cur (fold consume u st) = map_option (\<lambda>g. g @ u) (cur st)"
  "offset (fold consume u st) = offset st + length u"
  by (induction u arbitrary: st) (simp_all add: consume_def option.map_comp comp_def option.map_ident)

lemma consume_sel [simp]:
  "groups (consume c st) = groups st"
  "whole (consume c st) = whole st @ [c]"
  "cur (consume c st) = map_option (\<lambda>g. g @ [c]) (cur st)"
  "offset (consume c st) = Suc (offset st)"
  by (simp_all add: consume_def)

lemma run_star_end:
  "run [Star p] s st = Some (fold consume (takeWhile p s) st)"
  by (induction s arbitrary: st) simp_all

lemma run_lazy_first:
  "run r s st = Some m \<Longrightarrow> run (StarLazy p # r) s st = Some m"
  by (cases s) simp_all

lemma run_opt_take:
  "p c \<Longrightarrow> run r s (consume c st) = Some m \<Longrightarrow> run (Opt p # r) (c # s) st = Some m"
  by simp

lemma run_opt_skip:
  "\<not> p c \<Longrightarrow> run (Opt p # r) (c # s) st = run r (c # s) st"
  by simp

lemma name_char_classes:
  "name_char c \<Longrightarrow> \<not> backtick c \<and> \<not> period c \<and> \<not> space_class c \<and> any_char c \<and>
     not_backtick_period c"
  by (auto simp: name_char_def backtick_def period_def any_char_def not_backtick_period_def
      space_class_def)

lemma space_not_backtick: "space_class w \<Longrightarrow> \<not> backtick w"
  by (auto simp: space_class_def backtick_def)

lemma tail_ok:
  assumes "space_class w" and "q = [] \<or> q = [CHR 0x60]"
  shows "run [Opt backtick, One space_class, Star any_char] (q @ w # rest) st =
           Some (fold consume (q @ w # takeWhile any_char rest) st)"
  using assms space_not_backtick [of w]
  by (auto simp: run_star_end backtick_def)

lemma tail_fails_ident:
  "name_char c \<Longrightarrow> run [Opt backtick, One space_class, Star any_char] (c # xs) st = None"
  using name_char_classes [of c] by simp

lemma tail_fails_sep:
  assumes "q = [] \<or> q = [CHR 0x60]"
  shows "run [Opt backtick, One space_class, Star any_char] (q @ CHR ''.'' # ys) st = None"
  using assms by (auto simp: backtick_def space_class_def)

lemma group2_scan:
  assumes "\<forall>c\<in>set u. name_char c" and "space_class w" and "q = [] \<or> q = [CHR 0x60]"
  shows "run [StarLazy not_backtick_period, GroupClose, Opt backtick, One space_class,
              Star any_char] (u @ q @ w # rest) st =
         run [GroupClose, Opt backtick, One space_class, Star any_char] (q @ w # rest)
           (fold consume u st)"
  using assms(1)
proof (induction u arbitrary: st)
  case Nil
  have "\<exists>m. run [GroupClose, Opt backtick, One space_class, Star any_char] (q @ w # rest) st
      = Some m"
    using tail_ok [OF assms(2,3)] by simp
  then show ?case using run_lazy_first by fastforce
next
  case (Cons c u)
  have c: "name_char c" using Cons.prems by simp
  have f: "run [Opt backtick, One space_class, Star any_char] (c # u @ q @ w # rest) st' = None"
    for st' using c by (rule tail_fails_ident)
  show ?case using Cons c name_char_classes [of c] by (simp add: f)
qed

lemma group2_plus:
  assumes "\<forall>c\<in>set t. name_char c" and "t \<noteq> []" and "space_class w"
    and "q = [] \<or> q = [CHR 0x60]"
  shows "run [PlusLazy not_backtick_period, GroupClose, Opt backtick, One space_class,
              Star any_char] (t @ q @ w # rest) st =
         Some (fold consume (q @ w # takeWhile any_char rest)
                 ((fold consume t st)
                    \<lparr>groups := groups st @ [case cur st of Some g \<Rightarrow> g @ t | None \<Rightarrow> []],
                     cur := None\<rparr>))"
proof -
  obtain c u where t: "t = c # u" using assms(2) by (cases t) auto
  have u: "\<forall>c\<in>set u. name_char c" and c: "name_char c" using assms(1) t by simp_all
  have "run [PlusLazy not_backtick_period, GroupClose, Opt backtick, One space_class,
              Star any_char] (t @ q @ w # rest) st =
        run [GroupClose, Opt backtick, One space_class, Star any_char] (q @ w # rest)
           (fold consume u (consume c st))"
    using name_char_classes [OF c] group2_scan [OF u assms(3,4)] by (simp add: t)
  also have "\<dots> = Some (fold consume (q @ w # takeWhile any_char rest)
                 ((fold consume t st)
                    \<lparr>groups := groups st @ [case cur st of Some g \<Rightarrow> g @ t | None \<Rightarrow> []],
                     cur := None\<rparr>))"
    using tail_ok [OF assms(3,4)] by (simp add: t split: option.splits)
  finally show ?thesis .
qed

lemma group2_scan_fails:
  assumes "\<forall>c\<in>set u. name_char c" and "q = [] \<or> q = [CHR 0x60]"
  shows "run [StarLazy not_backtick_period, GroupClose, Opt backtick, One space_class,
              Star any_char] (u @ q @ CHR ''.'' # ys) st = None"
  using assms(1)
proof (induction u arbitrary: st)
  case Nil
  have f: "run [Opt backtick, One space_class, Star any_char] (q @ CHR ''.'' # ys) st' = None"
    for st' using assms(2) by (rule tail_fails_sep)
  show ?case using assms(2) f [of "st\<lparr>groups := groups st @ [case cur st of Some g \<Rightarrow> g | None \<Rightarrow> []], cur := None\<rparr>"]
    by (auto simp: not_backtick_period_def)
next
  case (Cons c u)
  have c: "name_char c" using Cons.prems by simp
  have f: "run [Opt backtick, One space_class, Star any_char] (c # u @ q @ CHR ''.'' # ys) st'
      = None" for st' using c by (rule tail_fails_ident)
  show ?case using Cons c name_char_classes [of c] by (simp add: f)
qed

lemma after_group1_fails:
  assumes "\<forall>c\<in>set u. name_char c" and "u \<noteq> []" and "q = [] \<or> q = [CHR 0x60]"
  shows "run [GroupClose, Opt backtick, Opt period, Opt backtick, GroupOpen,
              PlusLazy not_backtick_period, GroupClose, Opt backtick, One space_class,
              Star any_char] (u @ q @ CHR ''.'' # ys) st = None"
proof -
  obtain c v where u: "u = c # v" using assms(2) by (cases u) auto
  have v: "\<forall>c\<in>set v. name_char c" and c: "name_char c" using assms(1) u by simp_all
  show ?thesis
    using name_char_classes [OF c] by (simp add: u group2_scan_fails [OF v assms(3)])
qed

lemma group1_scan:
  assumes "\<forall>c\<in>set s. name_char c" and "q = [] \<or> q = [CHR 0x60]"
    and "run [GroupClose, Opt backtick, Opt period, Opt backtick, GroupOpen,
              PlusLazy not_backtick_period, GroupClose, Opt backtick, One space_class,
              Star any_char] (q @ CHR ''.'' # ys) (fold consume s st) = Some m"
  shows "run [StarLazy any_char, GroupClose, Opt backtick, Opt period, Opt backtick, GroupOpen,
              PlusLazy not_backtick_period, GroupClose, Opt backtick, One space_class,
              Star any_char] (s @ q @ CHR ''.'' # ys) st = Some m"
  using assms(1,3)
proof (induction s arbitrary: st)
  case Nil
  then show ?case using run_lazy_first by fastforce
next
  case (Cons c s)
  have c: "name_char c" using Cons.prems by simp
  have f: "run [GroupClose, Opt backtick, Opt period, Opt backtick, GroupOpen,
              PlusLazy not_backtick_period, GroupClose, Opt backtick, One space_class,
              Star any_char] ((c # s) @ q @ CHR ''.'' # ys) st = None"
    using Cons.prems(1) assms(2) by (intro after_group1_fails) simp_all
  have "run [StarLazy any_char, GroupClose, Opt backtick, Opt period, Opt backtick, GroupOpen,
              PlusLazy not_backtick_period, GroupClose, Opt backtick, One space_class,
              Star any_char] (s @ q @ CHR ''.'' # ys) (consume c st) = Some m"
    using Cons.prems by (intro Cons.IH) simp_all
  then show ?case
    using f name_char_classes [OF c]
    by (simp only: append_Cons run.simps(8) option.case if_True)
qed

lemma after_group1_plain:
  assumes "\<forall>c\<in>set t. name_char c" and "t \<noteq> []" and "space_class w"
    and "q = [] \<or> q = [CHR 0x60]"
  shows "\<exists>m. run [GroupClose, Opt backtick, Opt period, Opt backtick, GroupOpen,
              PlusLazy not_backtick_period, GroupClose, Opt backtick, One space_class,
              Star any_char] (t @ q @ w # rest) st = Some m \<and>
           groups m = groups st @ [case cur st of Some g \<Rightarrow> g | None \<Rightarrow> [], t] \<and>
           whole m = whole st @ t @ q @ w # takeWhile any_char rest"
proof -
  obtain c v where t: "t = c # v" using assms(2) by (cases t) auto
  have c: "name_char c" using assms(1) t by simp
  let ?st = "st\<lparr>groups := groups st @ [case cur st of Some g \<Rightarrow> g | None \<Rightarrow> []],
                 cur := Some []\<rparr>"
  have "run [GroupClose, Opt backtick, Opt period, Opt backtick, GroupOpen,
              PlusLazy not_backtick_period, GroupClose, Opt backtick, One space_class,
              Star any_char] (t @ q @ w # rest) st =
        run [PlusLazy not_backtick_period, GroupClose, Opt backtick, One space_class,
              Star any_char] (t @ q @ w # rest) ?st"
    using name_char_classes [OF c] by (simp add: t)
  then show ?thesis
    by (simp add: group2_plus [OF assms])
qed

lemma open_quote:
  assumes "\<forall>c\<in>set t. name_char c" and "t \<noteq> []" and "q = [] \<or> q = [CHR 0x60]"
    and "run [PlusLazy not_backtick_period, GroupClose, Opt backtick, One space_class,
              Star any_char] (t @ xs) ((fold consume q st)\<lparr>cur := Some []\<rparr>) = Some m"
  shows "run [Opt backtick, GroupOpen, PlusLazy not_backtick_period, GroupClose, Opt backtick,
              One space_class, Star any_char] (q @ t @ xs) st = Some m"
proof -
  obtain c v where t: "t = c # v" using assms(2) by (cases t) auto
  have c: "name_char c" using assms(1) t by simp
  from assms(3) show ?thesis
  proof
    assume q: "q = []"
    have "run [Opt backtick, GroupOpen, PlusLazy not_backtick_period, GroupClose, Opt backtick,
              One space_class, Star any_char] (t @ xs) st =
          run [PlusLazy not_backtick_period, GroupClose, Opt backtick, One space_class,
              Star any_char] (t @ xs) (st\<lparr>cur := Some []\<rparr>)"
      using name_char_classes [OF c] by (simp add: t)
    then show ?thesis using assms(4) by (simp add: q)
  next
    assume q: "q = [CHR 0x60]"
    have "run [GroupOpen, PlusLazy not_backtick_period, GroupClose, Opt backtick,
              One space_class, Star any_char] (t @ xs) (consume CHR 0x60 st) = Some m"
      using assms(4) by (simp add: q)
    then have "run [Opt backtick, GroupOpen, PlusLazy not_backtick_period, GroupClose,
              Opt backtick, One space_class, Star any_char] (CHR 0x60 # t @ xs) st = Some m"
      by (intro run_opt_take) (simp_all add: backtick_def)
    then show ?thesis by (simp add: q)
  qed
qed

lemma after_group1_schema:
  assumes "\<forall>c\<in>set t. name_char c" and "t \<noteq> []" and "space_class w"
    and "qt = [] \<or> qt = [CHR 0x60]" and "qs = [] \<or> qs = [CHR 0x60]"
  shows "\<exists>m. run [GroupClose, Opt backtick, Opt period, Opt backtick, GroupOpen,
              PlusLazy not_backtick_period, GroupClose, Opt backtick, One space_class,
              Star any_char] (qs @ CHR ''.'' # qt @ t @ qt @ w # rest) st = Some m \<and>
           groups m = groups st @ [case cur st of Some g \<Rightarrow> g | None \<Rightarrow> [], t] \<and>
           whole m = whole st @ qs @ CHR ''.'' # qt @ t @ qt @ w # takeWhile any_char rest"
proof -
  define st1 where
    "st1 = st\<lparr>groups := groups st @ [case cur st of Some g \<Rightarrow> g | None \<Rightarrow> []], cur := None\<rparr>"
  define st2 where "st2 = (fold consume qt (consume CHR ''.'' (fold consume qs st1)))\<lparr>cur := Some []\<rparr>"
  define m where
    "m = fold consume (qt @ w # takeWhile any_char rest)
           ((fold consume t st2)
              \<lparr>groups := groups st2 @ [case cur st2 of Some g \<Rightarrow> g @ t | None \<Rightarrow> []],
               cur := None\<rparr>)"
  have "run [PlusLazy not_backtick_period, GroupClose, Opt backtick, One space_class,
              Star any_char] (t @ qt @ w # rest) st2 = Some m"
    unfolding m_def by (rule group2_plus [OF assms(1-4)])
  then have "run [Opt backtick, GroupOpen, PlusLazy not_backtick_period, GroupClose,
              Opt backtick, One space_class, Star any_char] (qt @ t @ qt @ w # rest)
              (consume CHR ''.'' (fold consume qs st1)) = Some m"
    unfolding st2_def by (intro open_quote [OF assms(1,2,4)])
  then have b: "run [Opt period, Opt backtick, GroupOpen, PlusLazy not_backtick_period,
              GroupClose, Opt backtick, One space_class, Star any_char]
              (CHR ''.'' # qt @ t @ qt @ w # rest) (fold consume qs st1) = Some m"
    by (rule run_opt_take [rotated]) (simp add: period_def)
  have "run [Opt backtick, Opt period, Opt backtick, GroupOpen, PlusLazy not_backtick_period,
              GroupClose, Opt backtick, One space_class, Star any_char]
              (qs @ CHR ''.'' # qt @ t @ qt @ w # rest) st1 = Some m"
    using assms(5)
  proof
    assume q: "qs = []"
    have "run [Opt period, Opt backtick, GroupOpen, PlusLazy not_backtick_period,
              GroupClose, Opt backtick, One space_class, Star any_char]
              (CHR ''.'' # qt @ t @ qt @ w # rest) st1 = Some m"
      using b unfolding q by (simp only: fold_simps id_apply)
    then have "run [Opt backtick, Opt period, Opt backtick, GroupOpen,
              PlusLazy not_backtick_period, GroupClose, Opt backtick, One space_class,
              Star any_char] (CHR ''.'' # qt @ t @ qt @ w # rest) st1 = Some m"
      by (subst run_opt_skip) (simp_all add: backtick_def)
    then show ?thesis unfolding q by (simp only: append_Nil)
  next
    assume q: "qs = [CHR 0x60]"
    have "run [Opt period, Opt backtick, GroupOpen, PlusLazy not_backtick_period,
              GroupClose, Opt backtick, One space_class, Star any_char]
              (CHR ''.'' # qt @ t @ qt @ w # rest) (consume CHR 0x60 st1) = Some m"
      using b unfolding q by (simp only: fold_simps id_apply comp_apply)
    then have "run [Opt backtick, Opt period, Opt backtick, GroupOpen,
              PlusLazy not_backtick_period, GroupClose, Opt backtick, One space_class,
              Star any_char] (CHR 0x60 # CHR ''.'' # qt @ t @ qt @ w # rest) st1 = Some m"
      by (rule run_opt_take [rotated]) (simp add: backtick_def)
    then show ?thesis unfolding q by (simp only: append_Cons append_Nil)
  qed
  then have "run [GroupClose, Opt backtick, Opt period, Opt backtick, GroupOpen,
              PlusLazy not_backtick_period, GroupClose, Opt backtick, One space_class,
              Star any_char] (qs @ CHR ''.'' # qt @ t @ qt @ w # rest) st = Some m"
    by (simp add: st1_def)
  moreover have "groups m = groups st @ [case cur st of Some g \<Rightarrow> g | None \<Rightarrow> [], t]"
    by (simp add: m_def st2_def st1_def)
  moreover have "whole m =
      whole st @ qs @ CHR ''.'' # qt @ t @ qt @ w # takeWhile any_char rest"
    by (simp add: m_def st2_def st1_def)
  ultimately show ?thesis by blast
qed

lemma run_opt_skip_hd:
  "xs \<noteq> [] \<Longrightarrow> \<not> p (hd xs) \<Longrightarrow> run (Opt p # r) xs st = run r xs st"
  by (cases xs) simp_all

lemma search_hit:
  "run re b \<lparr>offset = off, whole = [], groups = [], cur = None\<rparr> = Some m \<Longrightarrow>
   search re b off = Some (whole m # groups m)"
  by (cases b) simp_all

lemma keyword_alter:
  assumes "keyword ''ALTER'' ''alter'' a"
  obtains a1 a2 a3 a4 a5 where "a = [a1, a2, a3, a4, a5]"
    "letter CHR ''A'' CHR ''a'' a1" "letter CHR ''L'' CHR ''l'' a2"
    "letter CHR ''T'' CHR ''t'' a3" "letter CHR ''E'' CHR ''e'' a4"
    "letter CHR ''R'' CHR ''r'' a5"
  using assms by (auto simp: keyword_def list_all2_Cons2 letter_def)

lemma keyword_table:
  assumes "keyword ''TABLE'' ''table'' b"
  obtains b1 b2 b3 b4 b5 where "b = [b1, b2, b3, b4, b5]"
    "letter CHR ''T'' CHR ''t'' b1" "letter CHR ''A'' CHR ''a'' b2"
    "letter CHR ''B'' CHR ''b'' b3" "letter CHR ''L'' CHR ''l'' b4"
    "letter CHR ''E'' CHR ''e'' b5"
  using assms by (auto simp: keyword_def list_all2_Cons2 letter_def)

lemma prefix_run:
  assumes "keyword ''ALTER'' ''alter'' a" and "space_class w1"
    and "keyword ''TABLE'' ''table'' b" and "space_class w2"
  shows "run expAlterTable (a @ w1 # b @ w2 # xs)
           \<lparr>offset = 0, whole = [], groups = [], cur = None\<rparr> =
         run [StarLazy any_char, Opt backtick, GroupOpen, StarLazy any_char, GroupClose,
              Opt backtick, Opt period, Opt backtick, GroupOpen,
              PlusLazy not_backtick_period, GroupClose, Opt backtick, One space_class,
              Star any_char] xs
           \<lparr>offset = length (a @ w1 # b @ [w2]), whole = a @ w1 # b @ [w2], groups = [],
             cur = None\<rparr>"
proof -
  obtain a1 a2 a3 a4 a5 where a: "a = [a1, a2, a3, a4, a5]"
    "letter CHR ''A'' CHR ''a'' a1" "letter CHR ''L'' CHR ''l'' a2"
    "letter CHR ''T'' CHR ''t'' a3" "letter CHR ''E'' CHR ''e'' a4"
    "letter CHR ''R'' CHR ''r'' a5"
    using assms(1) by (rule keyword_alter)
  obtain b1 b2 b3 b4 b5 where b: "b = [b1, b2, b3, b4, b5]"
    "letter CHR ''T'' CHR ''t'' b1" "letter CHR ''A'' CHR ''a'' b2"
    "letter CHR ''B'' CHR ''b'' b3" "letter CHR ''L'' CHR ''l'' b4"
    "letter CHR ''E'' CHR ''e'' b5"
    using assms(3) by (rule keyword_table)
  show ?thesis
    using a(2-) b(2-) assms(2,4) by (simp add: a(1) b(1) expAlterTable_def consume_def)
qed

lemma run_groups:
  "run re s st = Some m \<Longrightarrow>
   length (groups m) = length (groups st) + count_list re GroupClose"
proof (induction re s st arbitrary: m rule: run.induct)
  case (1 s st)
  then show ?case by simp
next
  case (2 r s st)
  show ?case
  proof (cases "offset st = 0")
    case True
    then have "run r s st = Some m" using "2.prems" by simp
    then show ?thesis using "2.IH" [OF True] by simp
  next
    case False
    then show ?thesis using "2.prems" by simp
  qed
next
  case (3 p r st)
  then show ?case by simp
next
  case (4 p r c s st)
  show ?case
  proof (cases "p c")
    case True
    then have "run r s (consume c st) = Some m" using "4.prems" by simp
    then show ?thesis using "4.IH" [OF True, of m] by simp
  next
    case False
    then show ?thesis using "4.prems" by simp
  qed
next
  case (5 p r st)
  have "run r [] st = Some m" using "5.prems" by simp
  then show ?case using "5.IH" [of m] by simp
next
  case (6 p r c s st)
  show ?case
  proof (cases "p c")
    case True
    show ?thesis
    proof (cases "run r s (consume c st)")
      case None
      then have "run r (c # s) st = Some m" using "6.prems" True by simp
      then show ?thesis using "6.IH"(2) [OF True None, of m] by simp
    next
      case (Some m')
      then have "m' = m" using "6.prems" True by simp
      then show ?thesis using "6.IH"(1) [OF True, of m] Some by simp
    qed
  next
    case False
    then have "run r (c # s) st = Some m" using "6.prems" by simp
    then show ?thesis using "6.IH"(3) [OF False, of m] by simp
  qed
next
  case (7 p r st)
  have "run r [] st = Some m" using "7.prems" by simp
  then show ?case using "7.IH" [of m] by simp
next
  case (8 p r c s st)
  show ?case
  proof (cases "run r (c # s) st")
    case None
    show ?thesis
    proof (cases "p c")
      case True
      then have "run (StarLazy p # r) s (consume c st) = Some m"
        using "8.prems" None by simp
      then show ?thesis using "8.IH"(2) [OF None True, of m] by simp
    next
      case False
      then show ?thesis using "8.prems" None by simp
    qed
  next
    case (Some m')
    then have "m' = m" using "8.prems" by simp
    then show ?thesis using "8.IH"(1) [of m] Some by simp
  qed
next
  case (9 p r st)
  then show ?case by simp
next
  case (10 p r c s st)
  show ?case
  proof (cases "p c")
    case True
    then have "run (StarLazy p # r) s (consume c st) = Some m" using "10.prems" by simp
    then show ?thesis using "10.IH" [OF True, of m] by simp
  next
    case False
    then show ?thesis using "10.prems" by simp
  qed
next
  case (11 p r st)
  have "run r [] st = Some m" using "11.prems" by simp
  then show ?case using "11.IH" [of m] by simp
next
  case (12 p r c s st)
  show ?case
  proof (cases "p c")
    case True
    show ?thesis
    proof (cases "run (Star p # r) s (consume c st)")
      case None
      then have "run r (c # s) st = Some m" using "12.prems" True by simp
      then show ?thesis using "12.IH"(2) [OF True None, of m] by simp
    next
      case (Some m')
      then have "m' = m" using "12.prems" True by simp
      then show ?thesis using "12.IH"(1) [OF True, of m] Some by simp
    qed
  next
    case False
    then have "run r (c # s) st = Some m" using "12.prems" by simp
    then show ?thesis using "12.IH"(3) [OF False, of m] by simp
  qed
next
  case (13 r s st)
  have "run r s (st\<lparr>cur := Some []\<rparr>) = Some m" using "13.prems" by simp
  then show ?case using "13.IH" [of m] by simp
next
  case (14 r s st)
  have "run r s (st\<lparr>groups := groups st @ [case cur st of Some g \<Rightarrow> g | None \<Rightarrow> []],
                   cur := None\<rparr>) = Some m"
    using "14.prems" by simp
  then show ?case using "14.IH" [of m] by simp
qed

lemma search_anchor:
  "off \<noteq> 0 \<Longrightarrow> search expAlterTable b off = None"
proof (induction b arbitrary: off)
  case Nil
  then show ?case by (simp add: expAlterTable_def)
next
  case (Cons c b)
  have "run expAlterTable (c # b) \<lparr>offset = off, whole = [], groups = [], cur = None\<rparr> = None"
    using Cons.prems by (simp add: expAlterTable_def)
  then show ?case using Cons.IH [of "Suc off"] by simp
qed

lemma FindSubmatch_run:
  "FindSubmatch expAlterTable b =
     (case run expAlterTable b \<lparr>offset = 0, whole = [], groups = [], cur = None\<rparr> of
        Some m \<Rightarrow> Some (whole m # groups m) | None \<Rightarrow> None)"
proof (cases b)
  case Nil
  then show ?thesis by (simp add: FindSubmatch_def)
next
  case (Cons c b')
  have "search expAlterTable b' (Suc 0) = None" by (rule search_anchor) simp
  then show ?thesis by (simp add: FindSubmatch_def Cons split: option.splits)
qed

lemma expAlterTable_count: "count_list expAlterTable GroupClose = 2"
  by (simp add: expAlterTable_def)

lemma expAlterTable_groups:
  assumes "FindSubmatch expAlterTable b = Some mb"
  shows "length mb = 3"
proof -
  obtain m where m: "run expAlterTable b \<lparr>offset = 0, whole = [], groups = [], cur = None\<rparr>
      = Some m" and mb: "mb = whole m # groups m"
    using assms unfolding FindSubmatch_run by (auto split: option.splits)
  have "length (groups m) = 2"
    using run_groups [OF m] by (simp add: expAlterTable_count)
  then show ?thesis by (simp add: mb)
qed

lemma open_quote_group:
  assumes "q = [] \<or> q = [CHR 0x60]" and "xs \<noteq> []" and "q = [] \<Longrightarrow> \<not> backtick (hd xs)"
    and "run r xs ((fold consume q st)\<lparr>cur := Some []\<rparr>) = Some m"
  shows "run (Opt backtick # GroupOpen # r) (q @ xs) st = Some m"
  using assms(1)
proof
  assume q: "q = []"
  have "run (Opt backtick # GroupOpen # r) xs st = run (GroupOpen # r) xs st"
    using assms(2) assms(3) [OF q] by (rule run_opt_skip_hd)
  then show ?thesis using assms(4) by (simp add: q)
next
  assume q: "q = [CHR 0x60]"
  have "run (GroupOpen # r) xs (consume CHR 0x60 st) = Some m"
    using assms(4) by (simp add: q)
  then have "run (Opt backtick # GroupOpen # r) (CHR 0x60 # xs) st = Some m"
    by (rule run_opt_take [rotated]) (simp add: backtick_def)
  then show ?thesis by (simp add: q)
qed

lemma find_with_schema:
  assumes "keyword ''ALTER'' ''alter'' a" and "space_class w1"
    and "keyword ''TABLE'' ''table'' b" and "space_class w2" and "space_class w3"
    and "\<forall>c\<in>set s. name_char c" and "\<forall>c\<in>set t. name_char c" and "t \<noteq> []"
    and "qs = [] \<or> qs = [CHR 0x60]" and "qt = [] \<or> qt = [CHR 0x60]"
  shows "FindSubmatch expAlterTable
           (a @ w1 # b @ w2 # qs @ s @ qs @ CHR ''.'' # qt @ t @ qt @ w3 # rest) =
         Some [a @ w1 # b @ w2 # qs @ s @ qs @ CHR ''.'' # qt @ t @ qt @ w3 #
                 takeWhile any_char rest, s, t]"
proof -
  define st0 where
    "st0 = \<lparr>offset = length (a @ w1 # b @ [w2]), whole = a @ w1 # b @ [w2], groups = [],
            cur = None\<rparr>"
  define st1 where "st1 = (fold consume qs st0)\<lparr>cur := Some []\<rparr>"
  define ys where "ys = qt @ t @ qt @ w3 # rest"
  obtain m where m: "run [GroupClose, Opt backtick, Opt period, Opt backtick, GroupOpen,
        PlusLazy not_backtick_period, GroupClose, Opt backtick, One space_class,
        Star any_char] (qs @ CHR ''.'' # ys) (fold consume s st1) = Some m"
    and g: "groups m = [s, t]"
    and w: "whole m = a @ w1 # b @ w2 # qs @ s @ qs @ CHR ''.'' # qt @ t @ qt @ w3 #
        takeWhile any_char rest"
    using after_group1_schema [OF assms(7,8,5,10,9), of rest "fold consume s st1"]
    by (auto simp: st1_def st0_def ys_def)
  have "run [StarLazy any_char, GroupClose, Opt backtick, Opt period, Opt backtick, GroupOpen,
        PlusLazy not_backtick_period, GroupClose, Opt backtick, One space_class,
        Star any_char] (s @ qs @ CHR ''.'' # ys) st1 = Some m"
    using assms(6,9) m by (rule group1_scan)
  moreover have "s @ qs @ CHR ''.'' # ys \<noteq> []" by simp
  moreover have "\<not> backtick (hd (s @ qs @ CHR ''.'' # ys))" if "qs = []"
  proof (cases s)
    case Nil
    then show ?thesis using that by (simp add: backtick_def)
  next
    case (Cons c v)
    then show ?thesis using assms(6) name_char_classes [of c] by simp
  qed
  ultimately have "run [Opt backtick, GroupOpen, StarLazy any_char, GroupClose, Opt backtick,
        Opt period, Opt backtick, GroupOpen, PlusLazy not_backtick_period, GroupClose,
        Opt backtick, One space_class, Star any_char] (qs @ s @ qs @ CHR ''.'' # ys) st0
        = Some m"
    unfolding st1_def by (intro open_quote_group [OF assms(9)])
  then have "run [StarLazy any_char, Opt backtick, GroupOpen, StarLazy any_char, GroupClose,
        Opt backtick, Opt period, Opt backtick, GroupOpen, PlusLazy not_backtick_period,
        GroupClose, Opt backtick, One space_class, Star any_char]
        (qs @ s @ qs @ CHR ''.'' # ys) st0 = Some m"
    by (rule run_lazy_first)
  then have "run expAlterTable (a @ w1 # b @ w2 # qs @ s @ qs @ CHR ''.'' # ys)
      \<lparr>offset = 0, whole = [], groups = [], cur = None\<rparr> = Some m"
    unfolding prefix_run [OF assms(1-4)] st0_def .
  then show ?thesis
    by (simp add: FindSubmatch_run ys_def g w)
qed

lemma find_without_schema:
  assumes "keyword ''ALTER'' ''alter'' a" and "space_class w1"
    and "keyword ''TABLE'' ''table'' b" and "space_class w2" and "space_class w3"
    and "\<forall>c\<in>set t. name_char c" and "t \<noteq> []" and "q = [] \<or> q = [CHR 0x60]"
  shows "FindSubmatch expAlterTable (a @ w1 # b @ w2 # q @ t @ q @ w3 # rest) =
         Some [a @ w1 # b @ w2 # q @ t @ q @ w3 # takeWhile any_char rest, [], t]"
proof -
  define st0 where
    "st0 = \<lparr>offset = length (a @ w1 # b @ [w2]), whole = a @ w1 # b @ [w2], groups = [],
            cur = None\<rparr>"
  define st1 where "st1 = (fold consume q st0)\<lparr>cur := Some []\<rparr>"
  obtain m where m: "run [GroupClose, Opt backtick, Opt period, Opt backtick, GroupOpen,
        PlusLazy not_backtick_period, GroupClose, Opt backtick, One space_class,
        Star any_char] (t @ q @ w3 # rest) st1 = Some m"
    and g: "groups m = [[], t]"
    and w: "whole m = a @ w1 # b @ w2 # q @ t @ q @ w3 # takeWhile any_char rest"
    using after_group1_plain [OF assms(6,7,5,8), of rest st1]
    by (auto simp: st1_def st0_def)
  have "run [StarLazy any_char, GroupClose, Opt backtick, Opt period, Opt backtick, GroupOpen,
        PlusLazy not_backtick_period, GroupClose, Opt backtick, One space_class,
        Star any_char] (t @ q @ w3 # rest) st1 = Some m"
    using m by (rule run_lazy_first)
  moreover have "t @ q @ w3 # rest \<noteq> []" by simp
  moreover have "\<not> backtick (hd (t @ q @ w3 # rest))"
    using assms(6,7) name_char_classes [of "hd t"] by (cases t) simp_all
  ultimately have "run [Opt backtick, GroupOpen, StarLazy any_char, GroupClose, Opt backtick,
        Opt period, Opt backtick, GroupOpen, PlusLazy not_backtick_period, GroupClose,
        Opt backtick, One space_class, Star any_char] (q @ t @ q @ w3 # rest) st0 = Some m"
    unfolding st1_def by (intro open_quote_group [OF assms(8)])
  then have "run [StarLazy any_char, Opt backtick, GroupOpen, StarLazy any_char, GroupClose,
        Opt backtick, Opt period, Opt backtick, GroupOpen, PlusLazy not_backtick_period,
        GroupClose, Opt backtick, One space_class, Star any_char]
        (q @ t @ q @ w3 # rest) st0 = Some m"
    by (rule run_lazy_first)
  then have "run expAlterTable (a @ w1 # b @ w2 # q @ t @ q @ w3 # rest)
      \<lparr>offset = 0, whole = [], groups = [], cur = None\<rparr> = Some m"
    unfolding prefix_run [OF assms(1-4)] st0_def .
  then show ?thesis
    by (simp add: FindSubmatch_run g w)
qed

lemma find_needs_alter:
  assumes "b = [] \<or> \<not> letter CHR ''A'' CHR ''a'' (hd b)"
  shows "FindSubmatch expAlterTable b = None"
proof -
  have "run expAlterTable b \<lparr>offset = 0, whole = [], groups = [], cur = None\<rparr> = None"
    using assms by (cases b) (simp_all add: expAlterTable_def)
  then show ?thesis by (simp add: FindSubmatch_run)
qed

lemma step_query_effects:
  assumes "getEvent env = Inr ev" and "Event ev = QueryEvent schema q"
    and "FindSubmatch expAlterTable q = Some mb"
  shows "take 3 (snd (step c env st)) =
     [GetEvent (2 * Second),
      ClearTableCache (if mb ! 1 = [] then schema else mb ! 1) (mb ! 2),
      LogClearTableCache (if mb ! 1 = [] then schema else mb ! 1) (mb ! 2)]"
  unfolding step_query_match [OF assms] save_step_effects by simp

text \<open>
  C3. \<^verbatim>\<open>expAlterTable\<close> matches a statement that starts with the words ALTER and TABLE
  in any mix of upper and lower case, each followed by a white space character, and goes
  on with a table name, with or without backticks, with or without a schema before it,
  and a white space character: the groups are the schema (empty when there is none) and
  the table. So the first statement of the examples gives \<open>shop\<close> and \<open>orders\<close>, the second
  an empty schema and \<open>orders\<close>, and the \<^verbatim>\<open>CREATE TABLE\<close> statement no match. On a match
  the loop clears the table cache for the table of the match, in the schema of the match
  or, when that is empty, in the schema of the event; without a match it does nothing but
  go on: no cache is cleared and no position saved.
\<close>

theorem alter_table_detector:
  "(keyword ''ALTER'' ''alter'' a \<and> space_class w1 \<and> keyword ''TABLE'' ''table'' b \<and>
    space_class w2 \<and> space_class w3 \<and> (\<forall>c\<in>set sch. name_char c) \<and>
    (\<forall>c\<in>set t. name_char c) \<and> t \<noteq> [] \<and> (qs = [] \<or> qs = ''`'') \<and> (qt = [] \<or> qt = ''`'') \<longrightarrow>
      FindSubmatch expAlterTable
        (a @ w1 # b @ w2 # qs @ sch @ qs @ ''.'' @ qt @ t @ qt @ w3 # rest) =
        Some [a @ w1 # b @ w2 # qs @ sch @ qs @ ''.'' @ qt @ t @ qt @ w3 #
                takeWhile any_char rest, sch, t] \<and>
      FindSubmatch expAlterTable (a @ w1 # b @ w2 # qt @ t @ qt @ w3 # rest) =
        Some [a @ w1 # b @ w2 # qt @ t @ qt @ w3 # takeWhile any_char rest, [], t]) \<and>
   FindSubmatch expAlterTable ''ALTER TABLE `shop`.`orders` ADD COLUMN x INT'' =
     Some [''ALTER TABLE `shop`.`orders` ADD COLUMN x INT'', ''shop'', ''orders''] \<and>
   FindSubmatch expAlterTable ''ALTER TABLE orders RENAME COLUMN ...'' =
     Some [''ALTER TABLE orders RENAME COLUMN ...'', [], ''orders''] \<and>
   FindSubmatch expAlterTable ''CREATE TABLE orders (...)'' = None \<and>
   (getEvent env = Inr ev \<and> Event ev = QueryEvent schema q \<longrightarrow>
      (\<forall>mb. FindSubmatch expAlterTable q = Some mb \<longrightarrow>
         length mb = 3 \<and>
         take 3 (snd (step c env st)) =
           [GetEvent (2 * Second),
            ClearTableCache (if mb ! 1 = [] then schema else mb ! 1) (mb ! 2),
            LogClearTableCache (if mb ! 1 = [] then schema else mb ! 1) (mb ! 2)]) \<and>
      (FindSubmatch expAlterTable q = None \<longrightarrow>
         step c env st =
           (Inr (st\<lparr>timeout := Second, pos := (pos st)\<lparr>Pos' := LogPos (Header ev)\<rparr>,
                   forceSavePos := False\<rparr>),
            [GetEvent (2 * Second)]))) \<and>
   (getEvent env = Inr ev \<and>
    Event ev = QueryEvent ''shop'' ''ALTER TABLE orders RENAME COLUMN ...'' \<longrightarrow>
      take 3 (snd (step c env st)) =
        [GetEvent (2 * Second), ClearTableCache ''shop'' ''orders'',
         LogClearTableCache ''shop'' ''orders''])"
proof -
  have g: "FindSubmatch expAlterTable
        (a @ w1 # b @ w2 # qs @ sch @ qs @ ''.'' @ qt @ t @ qt @ w3 # rest) =
        Some [a @ w1 # b @ w2 # qs @ sch @ qs @ ''.'' @ qt @ t @ qt @ w3 #
                takeWhile any_char rest, sch, t] \<and>
      FindSubmatch expAlterTable (a @ w1 # b @ w2 # qt @ t @ qt @ w3 # rest) =
        Some [a @ w1 # b @ w2 # qt @ t @ qt @ w3 # takeWhile any_char rest, [], t]"
    if "keyword ''ALTER'' ''alter'' a" "space_class w1" "keyword ''TABLE'' ''table'' b"
      "space_class w2" "space_class w3" "\<forall>c\<in>set sch. name_char c"
      "\<forall>c\<in>set t. name_char c" "t \<noteq> []" "qs = [] \<or> qs = ''`''" "qt = [] \<or> qt = ''`''"
    using find_with_schema [OF that, of rest]
      find_without_schema [OF that(1-5) that(7,8,10), of rest]
    by simp
  have m: "length mb = 3 \<and>
         take 3 (snd (step c env st)) =
           [GetEvent (2 * Second),
            ClearTableCache (if mb ! 1 = [] then schema else mb ! 1) (mb ! 2),
            LogClearTableCache (if mb ! 1 = [] then schema else mb ! 1) (mb ! 2)]"
    if "getEvent env = Inr ev" "Event ev = QueryEvent schema q"
      "FindSubmatch expAlterTable q = Some mb" for mb
    using expAlterTable_groups [OF that(3)] step_query_effects [OF that] by simp
  have n: "step c env st =
           (Inr (st\<lparr>timeout := Second, pos := (pos st)\<lparr>Pos' := LogPos (Header ev)\<rparr>,
                   forceSavePos := False\<rparr>),
            [GetEvent (2 * Second)])"
    if "getEvent env = Inr ev" "Event ev = QueryEvent schema q"
      "FindSubmatch expAlterTable q = None"
    using that by (rule step_query_no_match)
  have e: "take 3 (snd (step c env st)) =
        [GetEvent (2 * Second), ClearTableCache ''shop'' ''orders'',
         LogClearTableCache ''shop'' ''orders'']"
    if "getEvent env = Inr ev"
      "Event ev = QueryEvent ''shop'' ''ALTER TABLE orders RENAME COLUMN ...''"
    using step_query_effects [OF that find_plain] by simp
  show ?thesis
    using g m n e find_quoted find_plain find_create by blast
qed

theorem alter_table_detector_witness:
  "keyword ''ALTER'' ''alter'' ''aLtEr'' \<and> keyword ''TABLE'' ''table'' ''Table'' \<and>
   space_class CHR '' '' \<and> space_class CHR 0x09 \<and> space_class CHR 0x0A \<and>
   FindSubmatch expAlterTable
     (''aLtEr'' @ CHR 0x09 # ''Table'' @ CHR '' '' # ''`'' @ ''shop'' @ ''`'' @ ''.'' @ [] @
      ''orders'' @ [] @ CHR 0x0A # ''add x int'') =
     Some [''aLtEr'' @ CHR 0x09 # ''Table'' @ CHR '' '' # ''`shop`.orders'' @
             CHR 0x0A # ''add x int'',
           ''shop'', ''orders''] \<and>
   take 3 (snd (step app_canal
       (sink_env (Inr (query_event ''ALTER TABLE orders RENAME COLUMN ...''))) start_state)) =
     [GetEvent (2 * Second), ClearTableCache ''shop'' ''orders'',
      LogClearTableCache ''shop'' ''orders''] \<and>
   step app_canal (sink_env (Inr (query_event ''CREATE TABLE orders (...)''))) start_state =
     (Inr (start_state\<lparr>pos := \<lparr>Name = ''bin.000001'', Pos' = 400\<rparr>\<rparr>),
      [GetEvent (2 * Second)])"
proof -
  have k: "keyword ''ALTER'' ''alter'' ''aLtEr''" "keyword ''TABLE'' ''table'' ''Table''"
    by (simp_all add: keyword_def)
  have w: "space_class CHR '' ''" "space_class CHR 0x09" "space_class CHR 0x0A"
    by (simp_all add: space_class_def)
  have n: "\<forall>c\<in>set ''shop''. name_char c" "\<forall>c\<in>set ''orders''. name_char c"
    by (simp_all add: name_char_def space_class_def)
  note t = alter_table_detector
    [of "''aLtEr''" "CHR 0x09" "''Table''" "CHR '' ''" "CHR 0x0A" "''shop''" "''orders''"
        "''`''" "[]" "''add x int''"
        "sink_env (Inr (query_event ''ALTER TABLE orders RENAME COLUMN ...''))"
        "query_event ''ALTER TABLE orders RENAME COLUMN ...''" "''shop''"
        "''ALTER TABLE orders RENAME COLUMN ...''" app_canal start_state]
  note u = alter_table_detector
    [of "''aLtEr''" "CHR 0x09" "''Table''" "CHR '' ''" "CHR 0x0A" "''shop''" "''orders''"
        "''`''" "[]" "''add x int''"
        "sink_env (Inr (query_event ''CREATE TABLE orders (...)''))"
        "query_event ''CREATE TABLE orders (...)''" "''shop''"
        "''CREATE TABLE orders (...)''" app_canal start_state]
  have a: "FindSubmatch expAlterTable
     (''aLtEr'' @ CHR 0x09 # ''Table'' @ CHR '' '' # ''`'' @ ''shop'' @ ''`'' @ ''.'' @ [] @
      ''orders'' @ [] @ CHR 0x0A # ''add x int'') =
     Some [''aLtEr'' @ CHR 0x09 # ''Table'' @ CHR '' '' # ''`shop`.orders'' @
             CHR 0x0A # ''add x int'',
           ''shop'', ''orders'']"
    using t k w n by (simp add: any_char_def)
  have b: "take 3 (snd (step app_canal
       (sink_env (Inr (query_event ''ALTER TABLE orders RENAME COLUMN ...''))) start_state)) =
     [GetEvent (2 * Second), ClearTableCache ''shop'' ''orders'',
      LogClearTableCache ''shop'' ''orders'']"
    using t by simp
  have c: "step app_canal (sink_env (Inr (query_event ''CREATE TABLE orders (...)'')))
      start_state =
     (Inr (start_state\<lparr>pos := \<lparr>Name = ''bin.000001'', Pos' = 400\<rparr>\<rparr>),
      [GetEvent (2 * Second)])"
    using u by simp
  show ?thesis using k w a b c by (intro conjI)
qed

end
